theory Spec2Isabelle
  imports Complex_Main "HOL-Library.Multiset" "HOL-Library.Product_Lexorder"
begin

section \<open>The packing viewer of \<^verbatim>\<open>src/main.py\<close>\<close>

text \<open>
  The program is a table-driven front end (class \<^verbatim>\<open>PackingViewer\<close>) around a
  rectangle packer. The embedding keeps the tables, the colour dictionary and the
  scene as an explicit state record; every method is a function of that state.
  Python floats are idealised as real numbers.
\<close>

subsection \<open>Table cells and their text\<close>

type_synonym rgba = "real \<times> real \<times> real \<times> real"

text \<open>A cell is \<^verbatim>\<open>table.item(row, col)\<close>: \<open>None\<close>, or an item with its text.\<close>

type_synonym cell = "string option"

text \<open>
  Column 3 of a load row is \<^verbatim>\<open>cellWidget(row, 3)\<close>: \<open>None\<close>, or a wrapper widget
  whose \<^verbatim>\<open>findChild(QPushButton)\<close> is \<open>None\<close> or a button carrying the property
  \<^verbatim>\<open>item_color\<close>.
\<close>

datatype button = PushButton (item_color: rgba)

record load_row =
  name_cell :: cell
  w_cell :: cell
  h_cell :: cell
  cell_widget :: "button option option"

record container_row =
  cname_cell :: cell
  cw_cell :: cell
  ch_cell :: cell

text \<open>
  What \<^verbatim>\<open>_draw_container\<close> and \<^verbatim>\<open>_draw_item\<close> are called with; the pixel
  scaling and the axis decoration are rendering and are left out.
\<close>

datatype scene_item =
  ContainerOutline real real
| ItemRect real real real real string rgba

record viewer =
  container_table :: container_row
  load_table :: "load_row list"
  load_row_colours :: "nat \<rightharpoonup> rgba"
  scene :: "scene_item list"
  save_name :: "string option"

text \<open>
  \<^verbatim>\<open>str.isspace\<close> on the code points below 256; a cell text is kept when
  \<^verbatim>\<open>text.strip()\<close> is non-empty, that is, when some character is not a blank.
\<close>

definition is_space :: "char \<Rightarrow> bool" where
  "is_space c \<longleftrightarrow>
     (of_char c :: nat) \<in> {9, 10, 11, 12, 13, 28, 29, 30, 31, 32, 133, 160}"

definition strip_nonempty :: "string \<Rightarrow> bool" where
  "strip_nonempty t \<longleftrightarrow> list_ex (\<lambda>c. \<not> is_space c) t"

text \<open>
  \<^verbatim>\<open>item.text() if item and item.text().strip() else dflt\<close>: the text itself (not
  stripped) when the cell exists and is not blank.
\<close>

definition text_or :: "cell \<Rightarrow> string \<Rightarrow> string" where
  "text_or c dflt =
     (case c of
        None \<Rightarrow> dflt
      | Some t \<Rightarrow> if strip_nonempty t then t else dflt)"

subsection \<open>Decimal rendering of a row number\<close>

definition digit_char :: "nat \<Rightarrow> char" where
  "digit_char d = ''0123456789'' ! d"

fun str_nat :: "nat \<Rightarrow> string" where
  "str_nat n =
     (if n < 10 then [digit_char n]
      else str_nat (n div 10) @ [digit_char (n mod 10)])"

declare str_nat.simps [simp del]

subsection \<open>Reading the tables\<close>

text \<open>
  \<^verbatim>\<open>float(text)\<close> is a builtin; it is a parameter \<open>pf\<close> of the readers, with
  \<open>None\<close> for \<^verbatim>\<open>ValueError\<close>. A printed warning is a value of \<open>warning\<close>.
\<close>

type_synonym pyfloat = "string \<Rightarrow> real option"

datatype warning = ContainerWarning | RowWarning nat

record container_data =
  cd_name :: string
  cd_width :: real
  cd_height :: real

text \<open>
  \<^verbatim>\<open>_get_container\<close> (lines 505-523). Both conversions sit in one \<^verbatim>\<open>try\<close>; the
  handler assigns both dimensions.
\<close>

definition get_container :: "pyfloat \<Rightarrow> viewer \<Rightarrow> container_data \<times> warning list" where
  "get_container pf v =
     (let row = container_table v;
          name = text_or (cname_cell row) ''Container'';
          w_text = text_or (cw_cell row) ''10'';
          h_text = text_or (ch_cell row) ''10''
      in case pf w_text of
           None \<Rightarrow> (\<lparr>cd_name = name, cd_width = 10, cd_height = 10\<rparr>, [ContainerWarning])
         | Some width \<Rightarrow>
             (case pf h_text of
                None \<Rightarrow> (\<lparr>cd_name = name, cd_width = 10, cd_height = 10\<rparr>, [ContainerWarning])
              | Some height \<Rightarrow>
                  (\<lparr>cd_name = name, cd_width = width, cd_height = height\<rparr>, [])))"

type_synonym item_data = "real \<times> real \<times> string"

text \<open>One iteration of the loop of \<^verbatim>\<open>_get_items_for_packing\<close> (lines 528-549).\<close>

definition item_of_row ::
  "pyfloat \<Rightarrow> (nat \<rightharpoonup> rgba) \<Rightarrow> nat \<Rightarrow> load_row \<Rightarrow> (item_data \<times> rgba) \<times> warning list" where
  "item_of_row pf colours row r =
     (let w_text = text_or (w_cell r) ''1'';
          h_text = text_or (h_cell r) ''1'';
          (width, height, ws) =
            (case pf w_text of
               None \<Rightarrow> (1, 1, [RowWarning row])
             | Some w \<Rightarrow>
                 (case pf h_text of
                    None \<Rightarrow> (1, 1, [RowWarning row])
                  | Some h \<Rightarrow> (w, h, [])));
          item_color = (case colours row of None \<Rightarrow> (0.5, 0.5, 0.5, 0.8) | Some c \<Rightarrow> c);
          name = text_or (name_cell r) (''Load '' @ str_nat (row + 1))
      in (((width, height, name), item_color), ws))"

definition get_items_for_packing ::
  "pyfloat \<Rightarrow> viewer \<Rightarrow> (item_data \<times> rgba) list \<times> warning list" where
  "get_items_for_packing pf v =
     (let rs = map (\<lambda>(row, r). item_of_row pf (load_row_colours v) row r)
                 (enumerate 0 (load_table v))
      in (map fst rs, concat (map snd rs)))"

subsection \<open>Saving the document\<close>

datatype error =
  AttributeError
| UnboundLocalError
| InvalidContainer
| InvalidItem nat

record load_entry =
  le_name :: string
  le_width :: string
  le_height :: string
  le_color :: rgba

record save_doc =
  doc_container :: "string \<times> string \<times> string"
  doc_loads :: "load_entry list"

text \<open>
  A local variable of a Python function that may not have been assigned yet:
  reading it while \<open>Unbound\<close> raises \<^verbatim>\<open>UnboundLocalError\<close>.
\<close>

datatype 'a local_var = Unbound | Bound 'a

text \<open>
  The loop of \<^verbatim>\<open>save_file_as\<close> (lines 372-381). \<^verbatim>\<open>color_button\<close> is assigned only
  under \<^verbatim>\<open>if button_container is not None\<close>, so it is threaded through the
  iterations as the loop's state.
\<close>

fun save_loads :: "button option local_var \<Rightarrow> load_row list \<Rightarrow> error + load_entry list" where
  "save_loads color_button [] = Inr []"
| "save_loads color_button (r # rs) =
     (let name = (case name_cell r of None \<Rightarrow> [] | Some t \<Rightarrow> t);
          width = (case w_cell r of None \<Rightarrow> ''1'' | Some t \<Rightarrow> t);
          height = (case h_cell r of None \<Rightarrow> ''1'' | Some t \<Rightarrow> t);
          color_button' =
            (case cell_widget r of
               None \<Rightarrow> color_button
             | Some button_container \<Rightarrow> Bound button_container)
      in case color_button' of
           Unbound \<Rightarrow> Inl UnboundLocalError
         | Bound b \<Rightarrow>
             (let load_data =
                    \<lparr>le_name = name, le_width = width, le_height = height,
                     le_color = (case b of
                                   None \<Rightarrow> (0.5, 0.5, 0.5, 0.8)
                                 | Some btn \<Rightarrow> item_color btn)\<rparr>
              in case save_loads color_button' rs of
                   Inl e \<Rightarrow> Inl e
                 | Inr es \<Rightarrow> Inr (load_data # es)))"

text \<open>
  The dictionary \<^verbatim>\<open>data\<close> of lines 359-381. The container cells are read with
  \<^verbatim>\<open>.text()\<close> unguarded: a missing one raises \<^verbatim>\<open>AttributeError\<close>.
\<close>

definition save_data :: "viewer \<Rightarrow> error + save_doc" where
  "save_data v =
     (let row = container_table v
      in case (cname_cell row, cw_cell row, ch_cell row) of
           (Some n, Some w, Some h) \<Rightarrow>
             (case save_loads Unbound (load_table v) of
                Inl e \<Rightarrow> Inl e
              | Inr es \<Rightarrow> Inr \<lparr>doc_container = (n, w, h), doc_loads = es\<rparr>)
         | _ \<Rightarrow> Inl AttributeError)"

datatype save_outcome = Cancelled | Written string save_doc | WriteError

text \<open>
  \<^verbatim>\<open>save_file_as\<close> (lines 353-389). \<open>dialog_name\<close> is what the file dialog returns
  (empty when cancelled), \<open>io_ok\<close> whether opening and writing the file succeed.
\<close>

definition save_file_as ::
  "string \<Rightarrow> bool \<Rightarrow> string option \<Rightarrow> viewer \<Rightarrow> error + viewer \<times> save_outcome" where
  "save_file_as dialog_name io_ok file_name v =
     (let fname = (case file_name of None \<Rightarrow> dialog_name | Some f \<Rightarrow> f)
      in if fname = [] then Inr (v, Cancelled)
         else case save_data v of
                Inl e \<Rightarrow> Inl e
              | Inr data \<Rightarrow>
                  if io_ok then Inr (v\<lparr>save_name := Some fname\<rparr>, Written fname data)
                  else Inr (v, WriteError))"

subsection \<open>The packing run\<close>

text \<open>
  A rectangle as the packer hands it back: \<^verbatim>\<open>rect.x\<close>, \<^verbatim>\<open>rect.y\<close>,
  \<^verbatim>\<open>rect.width\<close>, \<^verbatim>\<open>rect.height\<close>, \<^verbatim>\<open>rect.rid\<close>.
\<close>

record prect =
  rect_x :: real
  rect_y :: real
  rect_width :: real
  rect_height :: real
  rid :: nat

text \<open>
  The packer object of lines 445-460 (\<^verbatim>\<open>newPacker\<close>, \<^verbatim>\<open>add_bin\<close>, \<^verbatim>\<open>add_rect\<close>,
  \<^verbatim>\<open>pack\<close>) comes from the library \<^verbatim>\<open>rectpack\<close>, which is not part of
  \<^verbatim>\<open>src/\<close>. It is a parameter of the run: from the bin's width and height and
  the \<^verbatim>\<open>(width, height, rid)\<close> triples in \<^verbatim>\<open>add_rect\<close> order to the list of
  non-empty bins, or an exception.
\<close>

type_synonym packer = "real \<Rightarrow> real \<Rightarrow> (real \<times> real \<times> nat) list \<Rightarrow> error + prect list list"

text \<open>
  Lines 470-477. \<^verbatim>\<open>packed_items[rid]\<close> out of range raises \<^verbatim>\<open>IndexError\<close>, which
  the surrounding \<^verbatim>\<open>try\<close> swallows: the loop stops and keeps what it has.
\<close>

fun collect_packed :: "'a list \<Rightarrow> prect list \<Rightarrow> (prect \<times> 'a) list" where
  "collect_packed packed_items [] = []"
| "collect_packed packed_items (rect # rects) =
     (if rid rect < length packed_items
      then (rect, packed_items ! rid rect) # collect_packed packed_items rects
      else [])"

text \<open>\<^verbatim>\<open>packer[0]\<close> on a packer without bins raises the same \<^verbatim>\<open>IndexError\<close>.\<close>

definition packed_of :: "'a list \<Rightarrow> prect list list \<Rightarrow> (prect \<times> 'a) list" where
  "packed_of packed_items bins =
     (case bins of [] \<Rightarrow> [] | b # _ \<Rightarrow> collect_packed packed_items b)"

text \<open>Lines 479-481.\<close>

definition unpacked_of :: "'a list \<Rightarrow> nat list \<Rightarrow> 'a list" where
  "unpacked_of packed_items packed_ids =
     map (\<lambda>i. packed_items ! i)
       (filter (\<lambda>i. i \<notin> set packed_ids) [0..<length packed_items])"

datatype popup = NoItems | SomeUnfitted "string list" | AllFitted

record report =
  packed_rects :: "(prect \<times> item_data \<times> rgba) list"
  unpacked_rects :: "(item_data \<times> rgba) list"
  shown :: "popup option"
  printed :: "warning list"

definition draw_item :: "prect \<times> item_data \<times> rgba \<Rightarrow> scene_item" where
  "draw_item p =
     (case p of (rect, (w, h, name), color) \<Rightarrow>
        ItemRect (rect_x rect) (rect_y rect) (rect_width rect) (rect_height rect) name color)"

text \<open>Lines 454-457: what \<^verbatim>\<open>add_rect\<close> is called with, \<open>rid\<close> the position in the list.\<close>

definition added_rects :: "(item_data \<times> rgba) list \<Rightarrow> (real \<times> real \<times> nat) list" where
  "added_rects items_to_pack =
     map (\<lambda>(i, ((width, height, name), color)). (width, height, i)) (enumerate 0 items_to_pack)"

text \<open>
  \<^verbatim>\<open>run_packing\<close> (lines 428-503). An exception of the packer is not caught and
  ends the run.
\<close>

definition run_packing :: "pyfloat \<Rightarrow> packer \<Rightarrow> bool \<Rightarrow> viewer \<Rightarrow> error + viewer \<times> report" where
  "run_packing pf packer display_msg v =
     (let (container_data, ws1) = get_container pf v;
          container_width = cd_width container_data;
          container_height = cd_height container_data;
          (items_to_pack, ws2) = get_items_for_packing pf v
      in if items_to_pack = [] \<and> display_msg
         then Inr (v\<lparr>scene := []\<rparr>,
                   \<lparr>packed_rects = [], unpacked_rects = [], shown = Some NoItems,
                    printed = ws1 @ ws2\<rparr>)
         else
           case packer container_width container_height (added_rects items_to_pack) of
             Inl e \<Rightarrow> Inl e
           | Inr bins \<Rightarrow>
               (let packed = packed_of items_to_pack bins;
                    packed_ids = map (\<lambda>p. rid (fst p)) packed;
                    unpacked = unpacked_of items_to_pack packed_ids;
                    msg = (if unpacked \<noteq> [] \<and> display_msg
                           then Some (SomeUnfitted (map (\<lambda>item. snd (snd (fst item))) unpacked))
                           else if display_msg then Some AllFitted else None)
                in Inr (v\<lparr>scene := ContainerOutline container_width container_height
                                      # map draw_item packed\<rparr>,
                        \<lparr>packed_rects = packed, unpacked_rects = unpacked, shown = msg,
                         printed = ws1 @ ws2\<rparr>)))"

section \<open>The packing engine\<close>

text \<open>
  The engine behind \<^verbatim>\<open>rectpack.newPacker()\<close> is not in \<^verbatim>\<open>src/\<close>. The definitions
  of this section follow sections 4.1 to 4.4, 6 and 7 of the specification: geometry
  primitives, free-space tracker, best-short-side-fit heuristic and splitter/pruner.
\<close>

text \<open>
  Modelled from the spec: a rectangle of section 3 (FreeRectangle, and the footprint of a
  PlacedItem): origin, width and height.
\<close>

record box =
  box_x :: real
  box_y :: real
  box_w :: real
  box_h :: real

text \<open>Modelled from the spec: the geometry primitive \<^verbatim>\<open>fits\<close> of section 4.1.\<close>

definition fits :: "box \<Rightarrow> box \<Rightarrow> bool" where
  "fits a b \<longleftrightarrow> box_w a \<le> box_w b \<and> box_h a \<le> box_h b"

text \<open>
  Modelled from the spec: the geometry primitive \<^verbatim>\<open>overlaps\<close> of section 4.1, the
  interiors meet (touching edges do not count).
\<close>

definition overlaps :: "box \<Rightarrow> box \<Rightarrow> bool" where
  "overlaps a b \<longleftrightarrow>
     box_x a < box_x b + box_w b \<and> box_x b < box_x a + box_w a \<and>
     box_y a < box_y b + box_h b \<and> box_y b < box_y a + box_h a"

text \<open>
  Modelled from the spec: the geometry primitive \<^verbatim>\<open>contains\<close> of section 4.1,
  \<open>b\<close> lies entirely within \<open>a\<close>, touching edges allowed.
\<close>

definition contains :: "box \<Rightarrow> box \<Rightarrow> bool" where
  "contains a b \<longleftrightarrow>
     box_x a \<le> box_x b \<and> box_y a \<le> box_y b \<and>
     box_x b + box_w b \<le> box_x a + box_w a \<and>
     box_y b + box_h b \<le> box_y a + box_h a"

text \<open>Modelled from the spec: \<^verbatim>\<open>candidates\<close> of the free-space tracker, section 4.2.\<close>

definition candidates :: "box list \<Rightarrow> box \<Rightarrow> box list" where
  "candidates free forItem = filter (fits forItem) free"

text \<open>
  Modelled from the spec: the ranking of step 2c of section 4.3, short-side slack, then
  long-side slack, then the candidate's \<open>y\<close>, then its \<open>x\<close>.
\<close>

definition slack_key :: "box \<Rightarrow> box \<Rightarrow> real \<times> real \<times> real \<times> real" where
  "slack_key forItem r =
     (let dw = box_w r - box_w forItem; dh = box_h r - box_h forItem
      in (min dw dh, max dw dh, box_y r, box_x r))"

text \<open>
  Modelled from the spec: "minimizing" and "tie-break by" of step 2c, the lexicographic
  order on the four components of the ranking.
\<close>

fun key_less :: "real \<times> real \<times> real \<times> real \<Rightarrow> real \<times> real \<times> real \<times> real \<Rightarrow> bool" where
  "key_less (a1, a2, a3, a4) (b1, b2, b3, b4) \<longleftrightarrow>
     a1 < b1 \<or> (a1 = b1 \<and> (a2 < b2 \<or> (a2 = b2 \<and> (a3 < b3 \<or> (a3 = b3 \<and> a4 < b4)))))"

text \<open>
  Modelled from the spec: the candidate of least ranking among \<open>best\<close> and \<open>rs\<close>; among
  candidates of equal ranking the earlier one stays.
\<close>

fun best_of :: "box \<Rightarrow> box \<Rightarrow> box list \<Rightarrow> box" where
  "best_of forItem best [] = best"
| "best_of forItem best (r # rs) =
     best_of forItem
       (if key_less (slack_key forItem r) (slack_key forItem best) then r else best) rs"

text \<open>
  Modelled from the spec: the choice of step 2c of section 4.3 among the candidates;
  \<open>None\<close> when there is none (step 2b).
\<close>

definition choose_best :: "box \<Rightarrow> box list \<Rightarrow> box option" where
  "choose_best forItem cs = (case cs of [] \<Rightarrow> None | c # cs' \<Rightarrow> Some (best_of forItem c cs'))"

text \<open>
  Modelled from the spec: the splitter of section 4.4 on one free rectangle \<open>f\<close>: when
  \<open>f\<close> overlaps the footprint \<open>used\<close>, the parts of \<open>f\<close> to the left, right, above and
  below it, those of non-positive width or height discarded.
\<close>

definition carve :: "box \<Rightarrow> box \<Rightarrow> box list" where
  "carve used f =
     (if overlaps f used then
        filter (\<lambda>b. 0 < box_w b \<and> 0 < box_h b)
          [\<lparr>box_x = box_x f, box_y = box_y f,
            box_w = box_x used - box_x f, box_h = box_h f\<rparr>,
           \<lparr>box_x = box_x used + box_w used, box_y = box_y f,
            box_w = box_x f + box_w f - (box_x used + box_w used), box_h = box_h f\<rparr>,
           \<lparr>box_x = box_x f, box_y = box_y used + box_h used,
            box_w = box_w f, box_h = box_y f + box_h f - (box_y used + box_h used)\<rparr>,
           \<lparr>box_x = box_x f, box_y = box_y f,
            box_w = box_w f, box_h = box_y used - box_y f\<rparr>]
      else [f])"

text \<open>
  Modelled from the spec: the pruner of section 4.4, which removes from the free set every
  rectangle contained in another rectangle of the set.
\<close>

definition prune :: "box list \<Rightarrow> box list" where
  "prune fs =
     (let ds = remdups fs
      in filter (\<lambda>f. \<not> list_ex (\<lambda>g. g \<noteq> f \<and> contains g f) ds) ds)"

text \<open>Modelled from the spec: \<^verbatim>\<open>apply\<close> of the free-space tracker, sections 4.2 and 4.4.\<close>

definition apply_used :: "box list \<Rightarrow> box \<Rightarrow> box list" where
  "apply_used free used = prune (concat (map (carve used) free))"

text \<open>
  Modelled from the spec: the processing order of step 1 of section 4.3, area descending,
  then the larger side descending, then input order (a stable insertion sort).
\<close>

definition goes_before :: "real \<times> real \<times> nat \<Rightarrow> real \<times> real \<times> nat \<Rightarrow> bool" where
  "goes_before a b =
     (case a of (wa, ha, ia) \<Rightarrow> case b of (wb, hb, ib) \<Rightarrow>
        wb * hb < wa * ha \<or> (wa * ha = wb * hb \<and> max wb hb < max wa ha))"

text \<open>
  Modelled from the spec: the sort of step 1 as an insertion sort; an item is put behind
  those that go strictly before it and in front of its ties, which keeps input order.
\<close>

fun insert_item :: "real \<times> real \<times> nat \<Rightarrow> (real \<times> real \<times> nat) list \<Rightarrow> (real \<times> real \<times> nat) list" where
  "insert_item a [] = [a]"
| "insert_item a (b # bs) = (if goes_before b a then b # insert_item a bs else a # b # bs)"

text \<open>Modelled from the spec: the items in the processing order of step 1.\<close>

fun sort_items :: "(real \<times> real \<times> nat) list \<Rightarrow> (real \<times> real \<times> nat) list" where
  "sort_items [] = []"
| "sort_items (a # as) = insert_item a (sort_items as)"

text \<open>
  Modelled from the spec: step 2 of section 4.3 over the sorted items, returning the
  placements and the rejections in processing order.
\<close>

fun place_all ::
  "box list \<Rightarrow> (real \<times> real \<times> nat) list \<Rightarrow> prect list \<times> (real \<times> real \<times> nat) list" where
  "place_all free [] = ([], [])"
| "place_all free ((w, h, i) # rest) =
     (let forItem = \<lparr>box_x = 0, box_y = 0, box_w = w, box_h = h\<rparr>
      in case choose_best forItem (candidates free forItem) of
           None \<Rightarrow> (case place_all free rest of (ps, rs) \<Rightarrow> (ps, (w, h, i) # rs))
         | Some r \<Rightarrow>
             (let used = \<lparr>box_x = box_x r, box_y = box_y r, box_w = w, box_h = h\<rparr>
              in case place_all (apply_used free used) rest of
                   (ps, rs) \<Rightarrow>
                     (\<lparr>rect_x = box_x r, rect_y = box_y r, rect_width = w, rect_height = h,
                       rid = i\<rparr> # ps, rs)))"

text \<open>
  Modelled from the spec: the precondition of \<^verbatim>\<open>pack\<close> in section 6 with the fail-fast
  policy of section 7 (the failure names the container or the item), then the heuristic of
  section 4.3 on the free set holding the whole container (section 4.2).
\<close>

definition pack ::
  "real \<Rightarrow> real \<Rightarrow> (real \<times> real \<times> nat) list \<Rightarrow> error + prect list \<times> (real \<times> real \<times> nat) list" where
  "pack W H items =
     (if W \<le> 0 \<or> H \<le> 0 then Inl InvalidContainer
      else case find (\<lambda>(w, h, i). w \<le> 0 \<or> h \<le> 0) items of
             Some (w, h, i) \<Rightarrow> Inl (InvalidItem i)
           | None \<Rightarrow>
               Inr (place_all [\<lparr>box_x = 0, box_y = 0, box_w = W, box_h = H\<rparr>]
                      (sort_items items)))"

text \<open>
  Modelled from the spec: the engine in the place of the library's packer, its one
  container as the one bin.
\<close>

definition maxrects_packer :: packer where
  "maxrects_packer W H items =
     (case pack W H items of Inl e \<Rightarrow> Inl e | Inr (ps, rs) \<Rightarrow> Inr [ps])"

text \<open>A point strictly inside a rectangle handed back by the packer.\<close>

definition in_interior :: "prect \<Rightarrow> real \<times> real \<Rightarrow> bool" where
  "in_interior r p \<longleftrightarrow>
     rect_x r < fst p \<and> fst p < rect_x r + rect_width r \<and>
     rect_y r < snd p \<and> snd p < rect_y r + rect_height r"

definition box_of :: "prect \<Rightarrow> box" where
  "box_of r = \<lparr>box_x = rect_x r, box_y = rect_y r, box_w = rect_width r, box_h = rect_height r\<rparr>"

section \<open>Sample instances\<close>

text \<open>
  \<^verbatim>\<open>float\<close> on plain decimal texts: optional blanks around, an optional sign, digits
  with an optional fraction. Exponents, underscores, \<^verbatim>\<open>inf\<close> and \<^verbatim>\<open>nan\<close> are not
  covered; the instance is used at texts of this form and at texts \<^verbatim>\<open>float\<close> rejects.
\<close>

definition is_digit :: "char \<Rightarrow> bool" where
  "is_digit c \<longleftrightarrow> 48 \<le> (of_char c :: nat) \<and> (of_char c :: nat) \<le> 57"

definition digits_value :: "string \<Rightarrow> nat" where
  "digits_value s = foldl (\<lambda>a c. 10 * a + (of_char c - 48)) 0 s"

definition unsigned_decimal :: "string \<Rightarrow> real option" where
  "unsigned_decimal s =
     (let ip = takeWhile is_digit s; rest = dropWhile is_digit s
      in case rest of
           [] \<Rightarrow> if ip = [] then None else Some (real (digits_value ip))
         | c # fp \<Rightarrow>
             if c = CHR ''.'' \<and> list_all is_digit fp \<and> (ip \<noteq> [] \<or> fp \<noteq> [])
             then Some (real (digits_value ip) + real (digits_value fp) / 10 ^ length fp)
             else None)"

definition float_sample :: pyfloat where
  "float_sample s =
     (case rev (dropWhile is_space (rev (dropWhile is_space s))) of
        [] \<Rightarrow> None
      | c # cs \<Rightarrow>
          if c = CHR ''-'' then map_option uminus (unsigned_decimal cs)
          else if c = CHR ''+'' then unsigned_decimal cs
          else unsigned_decimal (c # cs))"


text \<open>A cell that is missing or holds only blanks.\<close>

definition blank_cell :: "cell \<Rightarrow> bool" where
  "blank_cell c \<longleftrightarrow> (case c of None \<Rightarrow> True | Some t \<Rightarrow> list_all is_space t)"

definition grey :: rgba where
  "grey = (0.5, 0.5, 0.5, 0.8)"

definition row_of :: "string \<Rightarrow> string \<Rightarrow> string \<Rightarrow> load_row" where
  "row_of n w h =
     \<lparr>name_cell = Some n, w_cell = Some w, h_cell = Some h,
      cell_widget = Some (Some (PushButton grey))\<rparr>"

definition viewer_of :: "string \<Rightarrow> string \<Rightarrow> load_row list \<Rightarrow> viewer" where
  "viewer_of w h rows =
     \<lparr>container_table = \<lparr>cname_cell = Some ''Container'', cw_cell = Some w, ch_cell = Some h\<rparr>,
      load_table = rows, load_row_colours = Map.empty, scene = [], save_name = None\<rparr>"

definition sample_viewer :: viewer where
  "sample_viewer =
     viewer_of ''10'' ''10'' [row_of ''a'' ''1'' ''1'', row_of ''b'' ''2'' ''2'', row_of ''c'' ''20'' ''1'']"

text \<open>Tables with missing and blank cells.\<close>

definition blank_viewer :: viewer where
  "blank_viewer =
     \<lparr>container_table = \<lparr>cname_cell = None, cw_cell = None, ch_cell = Some '' ''\<rparr>,
      load_table =
        [row_of ''a'' ''3'' ''4'',
         \<lparr>name_cell = Some ''  '', w_cell = None, h_cell = Some '' '', cell_widget = None\<rparr>],
      load_row_colours = Map.empty, scene = [], save_name = None\<rparr>"

text \<open>Projections of a run's outcome, for stating examples.\<close>

definition placed_rids :: "error + viewer \<times> report \<Rightarrow> nat list option" where
  "placed_rids r =
     (case r of
        Inl e \<Rightarrow> None
      | Inr (v', rep) \<Rightarrow> Some (map (\<lambda>p. rid (fst p)) (packed_rects rep)))"


section \<open>The heuristic as a relation\<close>

text \<open>
  The rank by which step 1 of section 4.3 sorts, as a pair compared lexicographically:
  larger area first, then larger longer side.
\<close>

definition item_rank :: "real \<times> real \<times> nat \<Rightarrow> real \<times> real" where
  "item_rank a = (case a of (w, h, i) \<Rightarrow> (- (w * h), - max w h))"

text \<open>Modelled from the spec: a tie of step 1, neither item goes before the other.\<close>

definition same_rank :: "real \<times> real \<times> nat \<Rightarrow> real \<times> real \<times> nat \<Rightarrow> bool" where
  "same_rank a b \<longleftrightarrow> \<not> goes_before a b \<and> \<not> goes_before b a"

text \<open>
  Modelled from the spec: what step 1 of section 4.3 asks of the processing order. It is a
  rearrangement of the input, no item stands behind one it goes before, and tied items
  keep their input order.
\<close>

definition processing_order ::
  "(real \<times> real \<times> nat) list \<Rightarrow> (real \<times> real \<times> nat) list \<Rightarrow> bool" where
  "processing_order items ordered \<longleftrightarrow>
     mset ordered = mset items \<and>
     sorted_wrt (\<lambda>a b. \<not> goes_before b a) ordered \<and>
     (\<forall>a. filter (same_rank a) ordered = filter (same_rank a) items)"

text \<open>
  Modelled from the spec: the candidates step 2c may choose, with the free space as a set:
  those that fit and that no fitting rectangle beats in the ranking.
\<close>

definition best_candidates :: "box set \<Rightarrow> box \<Rightarrow> box set" where
  "best_candidates free forItem =
     {r \<in> free. fits forItem r \<and>
        (\<forall>c\<in>free. fits forItem c \<longrightarrow>
           \<not> key_less (slack_key forItem c) (slack_key forItem r))}"

text \<open>
  Modelled from the spec: the splitter and pruner of section 4.4 on the free space as a
  set.
\<close>

definition apply_used_set :: "box set \<Rightarrow> box \<Rightarrow> box set" where
  "apply_used_set free used =
     (let carved = (\<Union>f\<in>free. set (carve used f))
      in {f \<in> carved. \<not> (\<exists>g\<in>carved. g \<noteq> f \<and> contains g f)})"

text \<open>
  Modelled from the spec: step 2 of section 4.3 as a relation between the free set, the
  items in processing order and the placements and rejections. An item that fits nowhere
  is rejected; otherwise any one of the best candidates may be taken.
\<close>

inductive places ::
  "box set \<Rightarrow> (real \<times> real \<times> nat) list \<Rightarrow> prect list \<times> (real \<times> real \<times> nat) list \<Rightarrow> bool" where
  finished: "places free [] ([], [])"
| rejected:
    "\<forall>r\<in>free. \<not> fits \<lparr>box_x = 0, box_y = 0, box_w = w, box_h = h\<rparr> r \<Longrightarrow>
     places free rest (ps, rs) \<Longrightarrow>
     places free ((w, h, i) # rest) (ps, (w, h, i) # rs)"
| placed:
    "r \<in> best_candidates free \<lparr>box_x = 0, box_y = 0, box_w = w, box_h = h\<rparr> \<Longrightarrow>
     places (apply_used_set free \<lparr>box_x = box_x r, box_y = box_y r, box_w = w, box_h = h\<rparr>)
       rest (ps, rs) \<Longrightarrow>
     places free ((w, h, i) # rest)
       (\<lparr>rect_x = box_x r, rect_y = box_y r, rect_width = w, rect_height = h, rid = i\<rparr> # ps, rs)"

text \<open>Modelled from the spec: the precondition of \<^verbatim>\<open>pack\<close> in section 6.\<close>

definition valid_input :: "real \<Rightarrow> real \<Rightarrow> (real \<times> real \<times> nat) list \<Rightarrow> bool" where
  "valid_input W H items \<longleftrightarrow> 0 < W \<and> 0 < H \<and> list_all (\<lambda>(w, h, i). 0 < w \<and> 0 < h) items"

text \<open>
  Modelled from the spec: a run of \<^verbatim>\<open>pack\<close> on valid input, any processing order that
  step 1 admits followed by any placements that step 2 admits, starting from the free set
  that holds the whole container.
\<close>

definition heuristic_run ::
  "real \<Rightarrow> real \<Rightarrow> (real \<times> real \<times> nat) list \<Rightarrow> prect list \<times> (real \<times> real \<times> nat) list \<Rightarrow> bool" where
  "heuristic_run W H items out \<longleftrightarrow>
     valid_input W H items \<and>
     (\<exists>ordered. processing_order items ordered \<and>
        places {\<lparr>box_x = 0, box_y = 0, box_w = W, box_h = H\<rparr>} ordered out)"

text \<open>
  Modelled from the spec: a packer that follows the heuristic. It fails only on invalid
  input, and what it returns is a run of the heuristic, as one bin (or as no bin when
  nothing was placed).
\<close>

definition follows_heuristic :: "packer \<Rightarrow> bool" where
  "follows_heuristic p \<longleftrightarrow>
     (\<forall>W H items.
        case p W H items of
          Inl e \<Rightarrow> \<not> valid_input W H items
        | Inr bins \<Rightarrow>
            \<exists>ps rs. heuristic_run W H items (ps, rs) \<and> (bins = [ps] \<or> bins = [] \<and> ps = []))"

text \<open>
  Modelled from the spec: the engine as a packer that opens no bin when it places
  nothing.
\<close>

definition binless_packer :: packer where
  "binless_packer W H items =
     (case pack W H items of
        Inl e \<Rightarrow> Inl e
      | Inr (ps, rs) \<Rightarrow> Inr (if ps = [] then [] else [ps]))"

text \<open>
  What a run leaves behind, if it returns: the placed and the unpacked sequence, the
  message shown and the scene drawn.
\<close>

definition result_of ::
  "error + viewer \<times> report \<Rightarrow>
   ((prect \<times> item_data \<times> rgba) list \<times> (item_data \<times> rgba) list \<times> popup option \<times> scene_item list) option" where
  "result_of r =
     (case r of
        Inl e \<Rightarrow> None
      | Inr (v', rep) \<Rightarrow> Some (packed_rects rep, unpacked_rects rep, shown rep, scene v'))"

section \<open>Properties of the engine\<close>

subsection \<open>Free space never meets a placed footprint\<close>

lemma contains_trans: "contains a b \<Longrightarrow> contains b c \<Longrightarrow> contains a c"
  by (auto simp: contains_def)

lemma contains_refl: "contains a a"
  by (simp add: contains_def)

lemma overlaps_mono: "contains f b \<Longrightarrow> overlaps b u \<Longrightarrow> overlaps f u"
  by (auto simp: contains_def overlaps_def)

lemma overlaps_sym: "overlaps a b \<longleftrightarrow> overlaps b a"
  by (auto simp: overlaps_def)

lemma carve_sound:
  assumes "b \<in> set (carve u f)"
  shows "contains f b \<and> \<not> overlaps b u"
proof (cases "overlaps f u")
  case True
  let ?l = "\<lparr>box_x = box_x f, box_y = box_y f, box_w = box_x u - box_x f, box_h = box_h f\<rparr>"
  let ?r = "\<lparr>box_x = box_x u + box_w u, box_y = box_y f,
             box_w = box_x f + box_w f - (box_x u + box_w u), box_h = box_h f\<rparr>"
  let ?a = "\<lparr>box_x = box_x f, box_y = box_y u + box_h u,
             box_w = box_w f, box_h = box_y f + box_h f - (box_y u + box_h u)\<rparr>"
  let ?d = "\<lparr>box_x = box_x f, box_y = box_y f, box_w = box_w f, box_h = box_y u - box_y f\<rparr>"
  from assms True have "b \<in> set (filter (\<lambda>b. 0 < box_w b \<and> 0 < box_h b) [?l, ?r, ?a, ?d])"
    by (simp only: carve_def if_True)
  then have pos: "0 < box_w b" "0 < box_h b" and mem: "b = ?l \<or> b = ?r \<or> b = ?a \<or> b = ?d"
    unfolding set_filter by auto
  from mem show ?thesis
  proof (elim disjE)
    assume "b = ?l" with pos True show ?thesis by (simp add: contains_def overlaps_def)
  next
    assume "b = ?r" with pos True show ?thesis by (simp add: contains_def overlaps_def)
  next
    assume "b = ?a" with pos True show ?thesis by (simp add: contains_def overlaps_def)
  next
    assume "b = ?d" with pos True show ?thesis by (simp add: contains_def overlaps_def)
  qed
next
  case False
  with assms show ?thesis
    by (simp add: carve_def contains_refl)
qed

lemma prune_subset: "set (prune fs) \<subseteq> set fs"
  by (auto simp: prune_def Let_def)

lemma apply_used_sound:
  assumes "b \<in> set (apply_used free u)"
  shows "(\<exists>f\<in>set free. contains f b) \<and> \<not> overlaps b u"
proof -
  from assms prune_subset have "b \<in> set (concat (map (carve u) free))"
    unfolding apply_used_def by blast
  then obtain f where "f \<in> set free" "b \<in> set (carve u f)" by auto
  with carve_sound show ?thesis by blast
qed

lemma best_of_mem: "best_of it b rs \<in> set (b # rs)"
  by (induction rs arbitrary: b) (auto split: if_splits)

lemma choose_best_mem: "choose_best it cs = Some r \<Longrightarrow> r \<in> set cs"
  using best_of_mem by (auto simp: choose_best_def split: list.splits)

lemma choose_best_candidates:
  assumes "choose_best it (candidates free it) = Some r"
  shows "r \<in> set free \<and> fits it r"
  using choose_best_mem [OF assms] by (simp add: candidates_def)

lemma choose_best_None: "choose_best it cs = None \<longleftrightarrow> cs = []"
  by (simp add: choose_best_def split: list.splits)

lemma place_all_inside:
  "p \<in> set (fst (place_all free its)) \<Longrightarrow> \<exists>f\<in>set free. contains f (box_of p)"
proof (induction free its arbitrary: p rule: place_all.induct)
  case (1 free)
  then show ?case by simp
next
  case (2 free w h i rest)
  let ?it = "\<lparr>box_x = 0, box_y = 0, box_w = w, box_h = h\<rparr>"
  show ?case
  proof (cases "choose_best ?it (candidates free ?it)")
    case None
    with 2 show ?thesis by (auto split: prod.splits)
  next
    case (Some r)
    let ?u = "\<lparr>box_x = box_x r, box_y = box_y r, box_w = w, box_h = h\<rparr>"
    from choose_best_candidates [OF Some] have r: "r \<in> set free" "fits ?it r" by auto
    from "2.prems" Some consider
      (hd) "p = \<lparr>rect_x = box_x r, rect_y = box_y r, rect_width = w, rect_height = h, rid = i\<rparr>"
      | (tl) "p \<in> set (fst (place_all (apply_used free ?u) rest))"
      by (auto split: prod.splits)
    then show ?thesis
    proof cases
      case hd
      with r have "contains r (box_of p)"
        by (simp add: contains_def fits_def box_of_def)
      with r show ?thesis by blast
    next
      case tl
      from "2.IH"(2) [OF refl Some refl tl] obtain f' where
        f': "f' \<in> set (apply_used free ?u)" "contains f' (box_of p)" by blast
      from apply_used_sound [OF f'(1)] obtain f where "f \<in> set free" "contains f f'" by blast
      with f'(2) contains_trans show ?thesis by blast
    qed
  qed
qed

lemma place_all_disjoint:
  "sorted_wrt (\<lambda>p q. \<not> overlaps (box_of p) (box_of q)) (fst (place_all free its))"
proof (induction free its rule: place_all.induct)
  case (1 free)
  then show ?case by simp
next
  case (2 free w h i rest)
  let ?it = "\<lparr>box_x = 0, box_y = 0, box_w = w, box_h = h\<rparr>"
  show ?case
  proof (cases "choose_best ?it (candidates free ?it)")
    case None
    with 2 show ?thesis by (auto split: prod.splits)
  next
    case (Some r)
    let ?u = "\<lparr>box_x = box_x r, box_y = box_y r, box_w = w, box_h = h\<rparr>"
    let ?p = "\<lparr>rect_x = box_x r, rect_y = box_y r, rect_width = w, rect_height = h, rid = i\<rparr>"
    have u: "box_of ?p = ?u" by (simp add: box_of_def)
    have "\<not> overlaps (box_of ?p) (box_of q)"
      if "q \<in> set (fst (place_all (apply_used free ?u) rest))" for q
    proof -
      from place_all_inside [OF that] obtain f' where
        f': "f' \<in> set (apply_used free ?u)" "contains f' (box_of q)" by blast
      from apply_used_sound [OF f'(1)] have "\<not> overlaps f' ?u" by simp
      with f'(2) overlaps_mono have "\<not> overlaps (box_of q) ?u" by blast
      then show ?thesis by (simp add: u overlaps_sym)
    qed
    moreover from "2.IH"(2) [OF refl Some refl]
    have "sorted_wrt (\<lambda>p q. \<not> overlaps (box_of p) (box_of q))
            (fst (place_all (apply_used free ?u) rest))" .
    ultimately show ?thesis using Some
      by (auto split: prod.splits)
  qed
qed

subsection \<open>The scenarios of the specification\<close>

text \<open>
  Scenarios A, C and D of section 8: one \<open>1.2 \<times> 1.0\<close> item in the \<open>2.44 \<times> 6.06\<close>
  container goes to the origin; a \<open>2 \<times> 2\<close> item does not go into a \<open>1 \<times> 1\<close> container;
  no items give no placements.
\<close>

lemma engine_scenarios:
  "pack 2.44 6.06 [(1.2, 1.0, 0)]
     = Inr ([\<lparr>rect_x = 0, rect_y = 0, rect_width = 1.2, rect_height = 1.0, rid = 0\<rparr>], [])"
  "pack 1 1 [(2, 2, 0)] = Inr ([], [(2, 2, 0)])"
  "pack 1 1 [] = Inr ([], [])"
  by code_simp+

subsection \<open>Every rid comes back at most once\<close>

lemma set_insert_item: "set (insert_item a bs) = insert a (set bs)"
  by (induction bs) auto

lemma set_sort_items: "set (sort_items xs) = set xs"
  by (induction xs) (auto simp: set_insert_item)

lemma distinct_insert_item:
  "distinct (map f (insert_item a bs)) \<longleftrightarrow> f a \<notin> f ` set bs \<and> distinct (map f bs)"
  by (induction bs) (auto simp: set_insert_item)

lemma distinct_sort_items: "distinct (map f (sort_items xs)) \<longleftrightarrow> distinct (map f xs)"
  by (induction xs) (auto simp: distinct_insert_item set_sort_items)

lemma place_all_from_items:
  "p \<in> set (fst (place_all free its)) \<Longrightarrow> (rect_width p, rect_height p, rid p) \<in> set its"
proof (induction free its rule: place_all.induct)
  case (1 free)
  then show ?case by simp
next
  case (2 free w h i rest)
  let ?it = "\<lparr>box_x = 0, box_y = 0, box_w = w, box_h = h\<rparr>"
  show ?case
  proof (cases "choose_best ?it (candidates free ?it)")
    case None
    with 2 show ?thesis by (auto split: prod.splits)
  next
    case (Some r)
    let ?u = "\<lparr>box_x = box_x r, box_y = box_y r, box_w = w, box_h = h\<rparr>"
    from "2.prems" Some consider
      (hd) "p = \<lparr>rect_x = box_x r, rect_y = box_y r, rect_width = w, rect_height = h, rid = i\<rparr>"
      | (tl) "p \<in> set (fst (place_all (apply_used free ?u) rest))"
      by (auto split: prod.splits)
    then show ?thesis
    proof cases
      case hd
      then show ?thesis by simp
    next
      case tl
      from "2.IH"(2) [OF refl Some refl tl] show ?thesis by simp
    qed
  qed
qed

lemma place_all_distinct:
  "distinct (map (\<lambda>t. snd (snd t)) its) \<Longrightarrow> distinct (map rid (fst (place_all free its)))"
proof (induction free its rule: place_all.induct)
  case (1 free)
  then show ?case by simp
next
  case (2 free w h i rest)
  let ?it = "\<lparr>box_x = 0, box_y = 0, box_w = w, box_h = h\<rparr>"
  from "2.prems" have rest: "distinct (map (\<lambda>t. snd (snd t)) rest)"
    and i: "i \<notin> (\<lambda>t. snd (snd t)) ` set rest" by auto
  show ?case
  proof (cases "choose_best ?it (candidates free ?it)")
    case None
    from "2.IH"(1) [OF refl None rest] None show ?thesis
      by (auto split: prod.splits)
  next
    case (Some r)
    let ?u = "\<lparr>box_x = box_x r, box_y = box_y r, box_w = w, box_h = h\<rparr>"
    obtain ps rs where pr: "place_all (apply_used free ?u) rest = (ps, rs)"
      by (cases "place_all (apply_used free ?u) rest")
    have "i \<notin> rid ` set ps"
    proof
      assume "i \<in> rid ` set ps"
      then obtain p where p: "p \<in> set (fst (place_all (apply_used free ?u) rest))" "i = rid p"
        using pr by auto
      from place_all_from_items [OF p(1)] have "rid p \<in> (\<lambda>t. snd (snd t)) ` set rest"
        by force
      with i p(2) show False by simp
    qed
    moreover from "2.IH"(2) [OF refl Some refl rest] pr have "distinct (map rid ps)" by simp
    ultimately show ?thesis using Some pr by simp
  qed
qed

section \<open>Properties of the read-out\<close>

lemma added_rects_rids: "map (\<lambda>t. snd (snd t)) (added_rects items) = [0..<length items]"
  by (rule nth_equalityI) (auto simp: added_rects_def nth_enumerate_eq split: prod.splits)

lemma collect_packed_all:
  "\<forall>r\<in>set b. rid r < length items \<Longrightarrow>
   collect_packed items b = map (\<lambda>r. (r, items ! rid r)) b"
  by (induction b) auto

lemma collect_packed_takeWhile:
  "map fst (collect_packed items b) = takeWhile (\<lambda>r. rid r < length items) b"
  by (induction b) auto


lemma length_unpacked_of:
  assumes "distinct ids" and "\<forall>i\<in>set ids. i < length items"
  shows "length ids + length (unpacked_of items ids) = length items"
proof -
  have "length (filter (\<lambda>i. i \<in> set ids) [0..<length items]) = card (set ids)"
  proof -
    have "{i. i < length [0..<length items] \<and> [0..<length items] ! i \<in> set ids} = set ids"
      using assms(2) by auto
    then show ?thesis by (simp add: length_filter_conv_card)
  qed
  also have "\<dots> = length ids" using assms(1) by (simp add: distinct_card)
  finally have "length ids = length (filter (\<lambda>i. i \<in> set ids) [0..<length items])" by simp
  moreover have "length (filter (\<lambda>i. i \<in> set ids) [0..<length items])
      + length (filter (\<lambda>i. i \<notin> set ids) [0..<length items]) = length items"
    using sum_length_filter_compl [of "\<lambda>i. i \<in> set ids" "[0..<length items]"] by simp
  ultimately show ?thesis by (simp add: unpacked_of_def)
qed

lemma added_rects_nth:
  "i < length items \<Longrightarrow>
   added_rects items ! i = (fst (fst (items ! i)), fst (snd (fst (items ! i))), i)"
  by (simp add: added_rects_def nth_enumerate_eq split: prod.splits)

lemma added_rects_mem:
  assumes "(w, h, i) \<in> set (added_rects items)"
  shows "i < length items \<and> w = fst (fst (items ! i)) \<and> h = fst (snd (fst (items ! i)))"
proof -
  from assms obtain k where k: "k < length (added_rects items)" "added_rects items ! k = (w, h, i)"
    by (auto simp: in_set_conv_nth)
  then have "k < length items" by (simp add: added_rects_def)
  with k(2) added_rects_nth [of k items] show ?thesis by auto
qed

lemma run_packing_cases:
  assumes "run_packing pf packer d v = Inr (v', rep)"
  obtains (early) "fst (get_items_for_packing pf v) = []" and "d"
      and "packed_rects rep = []" and "unpacked_rects rep = []" and "scene v' = []"
  | (packed) bins where
      "packer (cd_width (fst (get_container pf v))) (cd_height (fst (get_container pf v)))
         (added_rects (fst (get_items_for_packing pf v))) = Inr bins"
      and "packed_rects rep = packed_of (fst (get_items_for_packing pf v)) bins"
      and "unpacked_rects rep =
             unpacked_of (fst (get_items_for_packing pf v))
               (map (\<lambda>p. rid (fst p)) (packed_rects rep))"
      and "scene v' =
             ContainerOutline (cd_width (fst (get_container pf v)))
               (cd_height (fst (get_container pf v))) # map draw_item (packed_rects rep)"
  using assms
  by (auto simp: run_packing_def Let_def split: prod.splits if_splits sum.splits)

lemma pack_Inr:
  assumes "pack W H its = Inr (ps, rs)"
  shows "0 < W" and "0 < H" and "\<forall>(w, h, i)\<in>set its. 0 < w \<and> 0 < h"
    and "(ps, rs) = place_all [\<lparr>box_x = 0, box_y = 0, box_w = W, box_h = H\<rparr>] (sort_items its)"
proof -
  from assms show "0 < W" "0 < H"
    by (auto simp: pack_def split: if_splits)
  from assms have "find (\<lambda>(w, h, i). w \<le> 0 \<or> h \<le> 0) its = None"
    by (auto simp: pack_def split: if_splits option.splits)
  then have "\<not> (\<exists>t. t \<in> set its \<and> (case t of (w, h, i) \<Rightarrow> w \<le> 0 \<or> h \<le> 0))"
    by (simp only: find_None_iff not_False_eq_True)
  then show "\<forall>(w, h, i)\<in>set its. 0 < w \<and> 0 < h"
    by fastforce
  from assms show "(ps, rs) = place_all [\<lparr>box_x = 0, box_y = 0, box_w = W, box_h = H\<rparr>] (sort_items its)"
    by (auto simp: pack_def split: if_splits option.splits)
qed

lemma maxrects_packer_Inr:
  assumes "maxrects_packer W H its = Inr bins"
  obtains ps rs where "pack W H its = Inr (ps, rs)" and "bins = [ps]"
  using assms by (auto simp: maxrects_packer_def split: sum.splits)

lemma pack_placements:
  assumes "pack W H its = Inr (ps, rs)"
  shows "sorted_wrt (\<lambda>p q. \<not> overlaps (box_of p) (box_of q)) ps"
    and "\<forall>p\<in>set ps. contains \<lparr>box_x = 0, box_y = 0, box_w = W, box_h = H\<rparr> (box_of p)"
    and "\<forall>p\<in>set ps. (rect_width p, rect_height p, rid p) \<in> set its"
    and "distinct (map (\<lambda>t. snd (snd t)) its) \<Longrightarrow> distinct (map rid ps)"
proof -
  let ?full = "\<lparr>box_x = 0, box_y = 0, box_w = W, box_h = H\<rparr>"
  from pack_Inr(4) [OF assms] have ps: "ps = fst (place_all [?full] (sort_items its))"
    by (metis fst_conv)
  show "sorted_wrt (\<lambda>p q. \<not> overlaps (box_of p) (box_of q)) ps"
    unfolding ps by (rule place_all_disjoint)
  show "\<forall>p\<in>set ps. contains ?full (box_of p)"
    unfolding ps using place_all_inside by fastforce
  show "\<forall>p\<in>set ps. (rect_width p, rect_height p, rid p) \<in> set its"
    unfolding ps using place_all_from_items set_sort_items by blast
  show "distinct (map rid ps)" if "distinct (map (\<lambda>t. snd (snd t)) its)"
    unfolding ps using that by (simp add: place_all_distinct distinct_sort_items)
qed

section \<open>A run with the engine\<close>

text \<open>What a successful run with the engine hands to the read-out.\<close>

lemma engine_run:
  assumes "run_packing pf maxrects_packer d v = Inr (v', rep)"
  obtains ps where
    "packed_rects rep = map (\<lambda>r. (r, fst (get_items_for_packing pf v) ! rid r)) ps"
    and "unpacked_rects rep = unpacked_of (fst (get_items_for_packing pf v)) (map rid ps)"
    and "sorted_wrt (\<lambda>p q. \<not> overlaps (box_of p) (box_of q)) ps"
    and "\<forall>p\<in>set ps. contains \<lparr>box_x = 0, box_y = 0,
           box_w = cd_width (fst (get_container pf v)),
           box_h = cd_height (fst (get_container pf v))\<rparr> (box_of p)"
    and "\<forall>p\<in>set ps. rid p < length (fst (get_items_for_packing pf v))
           \<and> rect_width p = fst (fst (fst (get_items_for_packing pf v) ! rid p))
           \<and> rect_height p = fst (snd (fst (fst (get_items_for_packing pf v) ! rid p)))
           \<and> 0 < rect_width p \<and> 0 < rect_height p"
    and "distinct (map rid ps)"
using assms
proof (cases rule: run_packing_cases)
  case early
  have "unpacked_of (fst (get_items_for_packing pf v)) (map rid []) = []"
    using early(1) by (simp add: unpacked_of_def)
  with early show ?thesis by (intro that [of "[]"]) simp_all
next
  case (packed bins)
  let ?items = "fst (get_items_for_packing pf v)"
  from packed(1) obtain ps rs where
    pk: "pack (cd_width (fst (get_container pf v))) (cd_height (fst (get_container pf v)))
           (added_rects ?items) = Inr (ps, rs)" and bins: "bins = [ps]"
    by (rule maxrects_packer_Inr)
  note pl = pack_placements [OF pk]
  have mem: "rid p < length ?items
           \<and> rect_width p = fst (fst (?items ! rid p))
           \<and> rect_height p = fst (snd (fst (?items ! rid p)))
           \<and> 0 < rect_width p \<and> 0 < rect_height p" if "p \<in> set ps" for p
  proof -
    from pl(3) that have m: "(rect_width p, rect_height p, rid p) \<in> set (added_rects ?items)" by blast
    with pack_Inr(3) [OF pk] have "0 < rect_width p \<and> 0 < rect_height p" by blast
    with added_rects_mem [OF m] show ?thesis by simp
  qed
  then have "collect_packed ?items ps = map (\<lambda>r. (r, ?items ! rid r)) ps"
    by (intro collect_packed_all) blast
  with packed(2) bins have 1: "packed_rects rep = map (\<lambda>r. (r, ?items ! rid r)) ps"
    by (simp add: packed_of_def)
  with packed(3) have 2: "unpacked_rects rep = unpacked_of ?items (map rid ps)"
    by (simp add: comp_def)
  have 3: "distinct (map rid ps)"
    by (rule pl(4)) (simp add: added_rects_rids)
  from 1 2 pl(1) pl(2) mem 3 show ?thesis by (intro that [of ps]) blast+
qed

text \<open>With positive dimensions throughout, the run returns a result.\<close>

lemma pack_total:
  assumes "0 < W" and "0 < H" and "\<forall>(w, h, i)\<in>set its. 0 < w \<and> 0 < h"
  shows "\<exists>ps rs. pack W H its = Inr (ps, rs)"
proof -
  from assms(3) have "\<not> (\<exists>t. t \<in> set its \<and> (case t of (w, h, i) \<Rightarrow> w \<le> 0 \<or> h \<le> 0))"
    by fastforce
  then have "find (\<lambda>(w, h, i). w \<le> 0 \<or> h \<le> 0) its = None"
    by (simp only: find_None_iff not_False_eq_True)
  with assms(1,2) show ?thesis
    by (cases "place_all [\<lparr>box_x = 0, box_y = 0, box_w = W, box_h = H\<rparr>] (sort_items its)")
       (simp add: pack_def)
qed

lemma run_returns_on_positive_dimensions:
  assumes "0 < cd_width (fst (get_container pf v))" and "0 < cd_height (fst (get_container pf v))"
    and "\<forall>it\<in>set (fst (get_items_for_packing pf v)). 0 < fst (fst it) \<and> 0 < fst (snd (fst it))"
  shows "\<exists>v' rep. run_packing pf maxrects_packer d v = Inr (v', rep)"
proof -
  let ?items = "fst (get_items_for_packing pf v)"
  have "\<forall>(w, h, i)\<in>set (added_rects ?items). 0 < w \<and> 0 < h"
  proof (clarify)
    fix w h i assume "(w, h, i) \<in> set (added_rects ?items)"
    from added_rects_mem [OF this] assms(3) show "0 < w \<and> 0 < h"
      by (metis nth_mem)
  qed
  from pack_total [OF assms(1,2) this] obtain ps rs where
    "pack (cd_width (fst (get_container pf v))) (cd_height (fst (get_container pf v)))
       (added_rects ?items) = Inr (ps, rs)" by blast
  then show ?thesis
    by (auto simp: run_packing_def maxrects_packer_def Let_def split: prod.splits)
qed

subsection \<open>A sample run\<close>

lemma sample_run:
  obtains v' rep where
    "run_packing float_sample maxrects_packer False sample_viewer = Inr (v', rep)"
    and "map fst (packed_rects rep) =
           [\<lparr>rect_x = 0, rect_y = 0, rect_width = 2, rect_height = 2, rid = 1\<rparr>,
            \<lparr>rect_x = 2, rect_y = 0, rect_width = 1, rect_height = 1, rid = 0\<rparr>]"
    and "map fst (unpacked_rects rep) = [(20, 1, ''c'')]"
proof -
  have "case run_packing float_sample maxrects_packer False sample_viewer of
          Inl e \<Rightarrow> False
        | Inr (v', rep) \<Rightarrow>
            map fst (packed_rects rep) =
              [\<lparr>rect_x = 0, rect_y = 0, rect_width = 2, rect_height = 2, rid = 1\<rparr>,
               \<lparr>rect_x = 2, rect_y = 0, rect_width = 1, rect_height = 1, rid = 0\<rparr>]
            \<and> map fst (unpacked_rects rep) = [(20, 1, ''c'')]"
    by code_simp
  then show ?thesis
    by (auto split: sum.splits prod.splits intro: that)
qed

subsection \<open>No overlap and containment\<close>

lemma interior_overlaps:
  "in_interior a pt \<Longrightarrow> in_interior b pt \<Longrightarrow> overlaps (box_of a) (box_of b)"
  by (auto simp: in_interior_def overlaps_def box_of_def)

text \<open>
  C1: in the result of a packing run, the rectangles of two distinct placed items have no
  interior point in common (touching at edges is allowed). The run is \<^verbatim>\<open>run_packing\<close>
  with the engine of the specification as its packer.
\<close>

theorem placed_rectangles_do_not_overlap:
  assumes "run_packing pf maxrects_packer d v = Inr (v', rep)"
    and "i < length (packed_rects rep)" and "j < length (packed_rects rep)" and "i \<noteq> j"
  shows "\<not> (in_interior (fst (packed_rects rep ! i)) pt \<and>
            in_interior (fst (packed_rects rep ! j)) pt)"
proof -
  from assms(1) obtain ps where
    pr: "packed_rects rep = map (\<lambda>r. (r, fst (get_items_for_packing pf v) ! rid r)) ps"
    and dj: "sorted_wrt (\<lambda>p q. \<not> overlaps (box_of p) (box_of q)) ps"
    by (rule engine_run)
  from pr assms(2,3) have len: "i < length ps" "j < length ps" by simp_all
  have apart: "\<not> overlaps (box_of (ps ! a)) (box_of (ps ! b))" if "a < b" "b < length ps" for a b
    using dj that by (simp add: sorted_wrt_iff_nth_less)
  from assms(4) consider "i < j" | "j < i" by linarith
  then have "\<not> (in_interior (ps ! i) pt \<and> in_interior (ps ! j) pt)"
  proof cases
    case 1
    from apart [OF 1 len(2)] interior_overlaps show ?thesis by blast
  next
    case 2
    from apart [OF 2 len(1)] interior_overlaps show ?thesis by blast
  qed
  with pr len show ?thesis by simp
qed

theorem placed_rectangles_do_not_overlap_witness:
  "\<exists>v' rep. run_packing float_sample maxrects_packer False sample_viewer = Inr (v', rep)
     \<and> (0::nat) < length (packed_rects rep) \<and> (1::nat) < length (packed_rects rep)
     \<and> (0::nat) \<noteq> 1
     \<and> \<not> (in_interior (fst (packed_rects rep ! 0)) (2, 1) \<and>
            in_interior (fst (packed_rects rep ! 1)) (2, 1))"
proof -
  obtain v' rep where
    run: "run_packing float_sample maxrects_packer False sample_viewer = Inr (v', rep)"
    and ps: "map fst (packed_rects rep) =
           [\<lparr>rect_x = 0, rect_y = 0, rect_width = 2, rect_height = 2, rid = 1\<rparr>,
            \<lparr>rect_x = 2, rect_y = 0, rect_width = 1, rect_height = 1, rid = 0\<rparr>]"
    by (rule sample_run)
  from ps have len: "0 < length (packed_rects rep)" "1 < length (packed_rects rep)"
    by (metis length_map length_Cons list.size(3) zero_less_Suc One_nat_def lessI)+
  have ne: "(0::nat) \<noteq> 1" by simp
  from placed_rectangles_do_not_overlap [OF run len ne, of "(2, 1)"] run len ne
  show ?thesis by blast
qed

text \<open>
  C2: every placed rectangle of a packing run lies within \<open>[0, W] \<times> [0, H]\<close> for the
  container's width \<open>W\<close> and height \<open>H\<close> as \<^verbatim>\<open>_get_container\<close> reads them, and has
  positive width and height.
\<close>

theorem placed_rectangles_inside_container:
  assumes "run_packing pf maxrects_packer d v = Inr (v', rep)"
    and "p \<in> set (packed_rects rep)"
  shows "0 \<le> rect_x (fst p) \<and> 0 \<le> rect_y (fst p)
       \<and> 0 < rect_width (fst p) \<and> 0 < rect_height (fst p)
       \<and> rect_x (fst p) + rect_width (fst p) \<le> cd_width (fst (get_container pf v))
       \<and> rect_y (fst p) + rect_height (fst p) \<le> cd_height (fst (get_container pf v))"
proof -
  from assms(1) obtain ps where
    pr: "packed_rects rep = map (\<lambda>r. (r, fst (get_items_for_packing pf v) ! rid r)) ps"
    and inside: "\<forall>p\<in>set ps. contains \<lparr>box_x = 0, box_y = 0,
           box_w = cd_width (fst (get_container pf v)),
           box_h = cd_height (fst (get_container pf v))\<rparr> (box_of p)"
    and dims: "\<forall>p\<in>set ps. rid p < length (fst (get_items_for_packing pf v))
           \<and> rect_width p = fst (fst (fst (get_items_for_packing pf v) ! rid p))
           \<and> rect_height p = fst (snd (fst (fst (get_items_for_packing pf v) ! rid p)))
           \<and> 0 < rect_width p \<and> 0 < rect_height p"
    by (rule engine_run)
  from assms(2) pr have "fst p \<in> set ps" by auto
  with inside dims show ?thesis
    by (auto simp: contains_def box_of_def)
qed

theorem placed_rectangles_inside_container_witness:
  "\<exists>v' rep p. run_packing float_sample maxrects_packer False sample_viewer = Inr (v', rep)
     \<and> p \<in> set (packed_rects rep)
     \<and> 0 \<le> rect_x (fst p) \<and> 0 \<le> rect_y (fst p)
     \<and> 0 < rect_width (fst p) \<and> 0 < rect_height (fst p)
     \<and> rect_x (fst p) + rect_width (fst p) \<le> cd_width (fst (get_container float_sample sample_viewer))
     \<and> rect_y (fst p) + rect_height (fst p) \<le> cd_height (fst (get_container float_sample sample_viewer))"
proof -
  obtain v' rep where
    run: "run_packing float_sample maxrects_packer False sample_viewer = Inr (v', rep)"
    and ps: "map fst (packed_rects rep) =
           [\<lparr>rect_x = 0, rect_y = 0, rect_width = 2, rect_height = 2, rid = 1\<rparr>,
            \<lparr>rect_x = 2, rect_y = 0, rect_width = 1, rect_height = 1, rid = 0\<rparr>]"
    by (rule sample_run)
  from ps have "packed_rects rep \<noteq> []" by auto
  then have p: "hd (packed_rects rep) \<in> set (packed_rects rep)" by (rule hd_in_set)
  from placed_rectangles_inside_container [OF run p] run p show ?thesis by blast
qed

subsection \<open>Partition of the items\<close>

lemma unpacked_of_ids:
  "unpacked_of items ids =
     map ((!) items) (filter (\<lambda>i. i \<notin> set ids) [0..<length items])"
  by (simp add: unpacked_of_def)

lemma read_out_ids:
  assumes "distinct ids" and "\<forall>i\<in>set ids. i < n"
  shows "distinct (ids @ filter (\<lambda>i. i \<notin> set ids) [0..<n])"
    and "set (ids @ filter (\<lambda>i. i \<notin> set ids) [0..<n]) = {..<n}"
  using assms by auto

text \<open>
  C3: the placed and the unpacked sequence of a packing run together hold exactly the input
  items. Their lengths add up to the number of items; every placed entry is the item at
  its rectangle's rid; the unpacked entries are the items at positions \<open>uids\<close>; and the
  placed rids followed by \<open>uids\<close> list every position \<open>0, \<dots>, n - 1\<close> exactly once.
\<close>

theorem placed_and_unpacked_partition_the_items:
  assumes "run_packing pf maxrects_packer d v = Inr (v', rep)"
  shows "length (packed_rects rep) + length (unpacked_rects rep)
           = length (fst (get_items_for_packing pf v))
       \<and> (\<forall>p\<in>set (packed_rects rep).
             rid (fst p) < length (fst (get_items_for_packing pf v))
             \<and> snd p = fst (get_items_for_packing pf v) ! rid (fst p))
       \<and> (\<exists>uids. unpacked_rects rep = map ((!) (fst (get_items_for_packing pf v))) uids
             \<and> distinct (map (\<lambda>p. rid (fst p)) (packed_rects rep) @ uids)
             \<and> set (map (\<lambda>p. rid (fst p)) (packed_rects rep) @ uids)
                 = {..<length (fst (get_items_for_packing pf v))})"
proof -
  let ?items = "fst (get_items_for_packing pf v)"
  from assms obtain ps where
    pr: "packed_rects rep = map (\<lambda>r. (r, ?items ! rid r)) ps"
    and un: "unpacked_rects rep = unpacked_of ?items (map rid ps)"
    and dims: "\<forall>p\<in>set ps. rid p < length ?items
           \<and> rect_width p = fst (fst (?items ! rid p))
           \<and> rect_height p = fst (snd (fst (?items ! rid p)))
           \<and> 0 < rect_width p \<and> 0 < rect_height p"
    and dist: "distinct (map rid ps)"
    by (rule engine_run)
  let ?ids = "map rid ps"
  let ?uids = "filter (\<lambda>i. i \<notin> set ?ids) [0..<length ?items]"
  have ids: "map (\<lambda>p. rid (fst p)) (packed_rects rep) = ?ids"
    by (simp add: pr comp_def)
  have bound: "\<forall>i\<in>set ?ids. i < length ?items" using dims by auto
  have "length ?ids + length (unpacked_of ?items ?ids) = length ?items"
    using dist bound by (rule length_unpacked_of)
  then have 1: "length (packed_rects rep) + length (unpacked_rects rep) = length ?items"
    by (simp add: pr un)
  have 2: "\<forall>p\<in>set (packed_rects rep). rid (fst p) < length ?items \<and> snd p = ?items ! rid (fst p)"
    using dims by (auto simp: pr)
  have 3: "unpacked_rects rep = map ((!) ?items) ?uids"
    by (simp add: un unpacked_of_ids)
  from read_out_ids [OF dist bound]
  have 4: "distinct (map (\<lambda>p. rid (fst p)) (packed_rects rep) @ ?uids)"
    and 5: "set (map (\<lambda>p. rid (fst p)) (packed_rects rep) @ ?uids) = {..<length ?items}"
    unfolding ids by blast+
  from 1 2 3 4 5 show ?thesis by blast
qed

theorem placed_and_unpacked_partition_the_items_witness:
  "\<exists>v' rep. run_packing float_sample maxrects_packer False sample_viewer = Inr (v', rep)
     \<and> packed_rects rep \<noteq> []
     \<and> length (packed_rects rep) + length (unpacked_rects rep)
           = length (fst (get_items_for_packing float_sample sample_viewer))
     \<and> (\<forall>p\<in>set (packed_rects rep).
             rid (fst p) < length (fst (get_items_for_packing float_sample sample_viewer))
             \<and> snd p = fst (get_items_for_packing float_sample sample_viewer) ! rid (fst p))
     \<and> (\<exists>uids. unpacked_rects rep
                 = map ((!) (fst (get_items_for_packing float_sample sample_viewer))) uids
             \<and> distinct (map (\<lambda>p. rid (fst p)) (packed_rects rep) @ uids)
             \<and> set (map (\<lambda>p. rid (fst p)) (packed_rects rep) @ uids)
                 = {..<length (fst (get_items_for_packing float_sample sample_viewer))})"
proof -
  obtain v' rep where
    run: "run_packing float_sample maxrects_packer False sample_viewer = Inr (v', rep)"
    and ps: "map fst (packed_rects rep) =
           [\<lparr>rect_x = 0, rect_y = 0, rect_width = 2, rect_height = 2, rid = 1\<rparr>,
            \<lparr>rect_x = 2, rect_y = 0, rect_width = 1, rect_height = 1, rid = 0\<rparr>]"
    by (rule sample_run)
  from ps have ne: "packed_rects rep \<noteq> []" by auto
  from placed_and_unpacked_partition_the_items [OF run] run ne show ?thesis by blast
qed

subsection \<open>Order of the two sequences\<close>

text \<open>
  The sample table holds the items \<open>a\<close>, \<open>b\<close>, \<open>c\<close> in this order; the engine processes
  them by area, and the read-out of lines 470-475 keeps the packer's order: \<open>b\<close> (rid 1)
  is placed before \<open>a\<close> (rid 0).
\<close>

theorem placed_order_counterexample:
  "map fst (fst (get_items_for_packing float_sample sample_viewer))
     = [(1, 1, ''a''), (2, 2, ''b''), (20, 1, ''c'')]
   \<and> placed_rids (run_packing float_sample maxrects_packer False sample_viewer) = Some [1, 0]"
  by code_simp

text \<open>
  C5, as the code has it: for any packer, the unpacked sequence holds the items at
  strictly increasing positions (input order), and the placed sequence lists the
  rectangles of the packer's first bin in the packer's own order (up to the first rid
  that is out of range).
\<close>

theorem unpacked_in_input_order_placed_in_packer_order:
  assumes "run_packing pf packer d v = Inr (v', rep)"
  shows "(\<exists>uids. sorted_wrt (<) uids
            \<and> (\<forall>i\<in>set uids. i < length (fst (get_items_for_packing pf v)))
            \<and> unpacked_rects rep = map ((!) (fst (get_items_for_packing pf v))) uids)
       \<and> (packed_rects rep = []
          \<or> (\<exists>b bins.
                packer (cd_width (fst (get_container pf v))) (cd_height (fst (get_container pf v)))
                  (added_rects (fst (get_items_for_packing pf v))) = Inr (b # bins)
                \<and> map fst (packed_rects rep)
                    = takeWhile (\<lambda>r. rid r < length (fst (get_items_for_packing pf v))) b))"
using assms
proof (cases rule: run_packing_cases)
  case early
  have "sorted_wrt (<) ([]::nat list)" by simp
  with early show ?thesis by auto
next
  case (packed bins)
  let ?items = "fst (get_items_for_packing pf v)"
  let ?uids = "filter (\<lambda>i. i \<notin> set (map (\<lambda>p. rid (fst p)) (packed_rects rep))) [0..<length ?items]"
  have "sorted_wrt (<) ?uids" by (rule sorted_wrt_filter) simp
  moreover have "\<forall>i\<in>set ?uids. i < length ?items" by simp
  moreover from packed(3) have "unpacked_rects rep = map ((!) ?items) ?uids"
    by (simp only: unpacked_of_ids)
  ultimately have 1: "\<exists>uids. sorted_wrt (<) uids \<and> (\<forall>i\<in>set uids. i < length ?items)
      \<and> unpacked_rects rep = map ((!) ?items) uids" by blast
  show ?thesis
  proof (cases bins)
    case Nil
    with packed(2) have "packed_rects rep = []" by (simp add: packed_of_def)
    with 1 show ?thesis by blast
  next
    case (Cons b bins')
    with packed(2) have "map fst (packed_rects rep) = takeWhile (\<lambda>r. rid r < length ?items) b"
      by (simp add: packed_of_def collect_packed_takeWhile)
    with 1 packed(1) Cons show ?thesis by blast
  qed
qed

theorem unpacked_in_input_order_placed_in_packer_order_witness:
  "\<exists>v' rep. run_packing float_sample maxrects_packer False sample_viewer = Inr (v', rep)
     \<and> (\<exists>uids. sorted_wrt (<) uids
            \<and> (\<forall>i\<in>set uids. i < length (fst (get_items_for_packing float_sample sample_viewer)))
            \<and> unpacked_rects rep = map ((!) (fst (get_items_for_packing float_sample sample_viewer))) uids)
     \<and> packed_rects rep \<noteq> []
     \<and> (\<exists>b bins.
            maxrects_packer (cd_width (fst (get_container float_sample sample_viewer)))
              (cd_height (fst (get_container float_sample sample_viewer)))
              (added_rects (fst (get_items_for_packing float_sample sample_viewer))) = Inr (b # bins)
            \<and> map fst (packed_rects rep)
                = takeWhile (\<lambda>r. rid r < length (fst (get_items_for_packing float_sample sample_viewer))) b)"
proof -
  obtain v' rep where
    run: "run_packing float_sample maxrects_packer False sample_viewer = Inr (v', rep)"
    and ps: "map fst (packed_rects rep) =
           [\<lparr>rect_x = 0, rect_y = 0, rect_width = 2, rect_height = 2, rid = 1\<rparr>,
            \<lparr>rect_x = 2, rect_y = 0, rect_width = 1, rect_height = 1, rid = 0\<rparr>]"
    by (rule sample_run)
  from ps have ne: "packed_rects rep \<noteq> []" by auto
  from unpacked_in_input_order_placed_in_packer_order [OF run] run ne show ?thesis by blast
qed

subsection \<open>Placed sizes\<close>





subsection \<open>Determinism\<close>

text \<open>The two rankings are lexicographic orders; the sort is the stable insertion sort.\<close>

lemma key_less_iff: "key_less a b \<longleftrightarrow> a < b"
  by (cases a, cases b) auto

lemma goes_before_iff: "goes_before a b \<longleftrightarrow> item_rank a < item_rank b"
  by (auto simp: goes_before_def item_rank_def split: prod.splits)

lemma same_rank_iff: "same_rank a b \<longleftrightarrow> item_rank a = item_rank b"
  by (auto simp: same_rank_def goes_before_iff)

lemma insert_item_insort: "insert_item a bs = insort_key item_rank a bs"
  by (induction bs) (auto simp: goes_before_iff)

lemma sort_items_sort_key: "sort_items xs = sort_key item_rank xs"
  by (induction xs) (simp_all add: insert_item_insort)

text \<open>Step 1 admits exactly one processing order.\<close>

lemma processing_order_unique:
  "processing_order items ordered \<longleftrightarrow> ordered = sort_items items"
proof
  assume po: "processing_order items ordered"
  have "sort_key item_rank items = ordered"
  proof (rule properties_for_sort_key)
    from po show "mset ordered = mset items" by (simp add: processing_order_def)
    show "filter (\<lambda>x. item_rank k = item_rank x) ordered
        = filter (\<lambda>x. item_rank k = item_rank x) items" for k
    proof -
      from po have "filter (same_rank k) ordered = filter (same_rank k) items"
        unfolding processing_order_def by blast
      moreover have "same_rank k = (\<lambda>x. item_rank k = item_rank x)"
        by (rule ext) (simp add: same_rank_iff)
      ultimately show ?thesis by simp
    qed
    from po have "sorted_wrt (\<lambda>a b. \<not> goes_before b a) ordered"
      by (simp add: processing_order_def)
    then show "sorted (map item_rank ordered)"
      by (simp add: sorted_map goes_before_iff not_less)
  qed
  then show "ordered = sort_items items" by (simp add: sort_items_sort_key)
next
  assume "ordered = sort_items items"
  then have o: "ordered = sort_key item_rank items" by (simp add: sort_items_sort_key)
  have "sorted (map item_rank ordered)" unfolding o by (rule sorted_sort_key)
  then have "sorted_wrt (\<lambda>a b. \<not> goes_before b a) ordered"
    by (simp add: sorted_map goes_before_iff not_less)
  moreover have "filter (same_rank a) ordered = filter (same_rank a) items" for a
  proof -
    have "filter (\<lambda>y. item_rank y = item_rank a) (sort_key item_rank items)
        = filter (\<lambda>y. item_rank y = item_rank a) items"
      by (rule sort_key_stable)
    moreover have "same_rank a = (\<lambda>y. item_rank y = item_rank a)"
      by (rule ext) (auto simp: same_rank_iff)
    ultimately show ?thesis by (simp add: o)
  qed
  moreover have "mset ordered = mset items" by (simp add: o)
  ultimately show "processing_order items ordered" by (simp add: processing_order_def)
qed

text \<open>The engine is one run of the relation.\<close>

lemma best_of_least:
  "c \<in> set (b # rs) \<Longrightarrow> \<not> key_less (slack_key it c) (slack_key it (best_of it b rs))"
proof (induction rs arbitrary: b c)
  case Nil
  then show ?case by (simp add: key_less_iff)
next
  case (Cons r rs)
  let ?b' = "if key_less (slack_key it r) (slack_key it b) then r else b"
  have le: "slack_key it (best_of it ?b' rs) \<le> slack_key it ?b'"
    using Cons.IH [of ?b' ?b'] by (simp add: key_less_iff not_less)
  from Cons.prems consider "c = b" | "c = r" | "c \<in> set rs" by auto
  then show ?case
  proof cases
    case 1
    with le show ?thesis by (auto simp: key_less_iff not_less split: if_splits)
  next
    case 2
    with le show ?thesis by (auto simp: key_less_iff not_less split: if_splits)
  next
    case 3
    with Cons.IH [of c ?b'] show ?thesis by simp
  qed
qed

lemma choose_best_is_best:
  assumes "choose_best it (candidates free it) = Some r"
  shows "r \<in> best_candidates (set free) it"
proof -
  from assms obtain c cs where cs: "candidates free it = c # cs" and r: "r = best_of it c cs"
    by (auto simp: choose_best_def split: list.splits)
  from choose_best_candidates [OF assms] have "r \<in> set free" "fits it r" by simp_all
  moreover have "\<not> key_less (slack_key it x) (slack_key it r)"
    if "x \<in> set free" "fits it x" for x
  proof -
    from that have "x \<in> set (c # cs)" unfolding cs [symmetric] by (simp add: candidates_def)
    from best_of_least [OF this] r show ?thesis by simp
  qed
  ultimately show ?thesis by (simp add: best_candidates_def)
qed

lemma set_prune: "set (prune fs) = {f \<in> set fs. \<not> (\<exists>g\<in>set fs. g \<noteq> f \<and> contains g f)}"
  by (auto simp: prune_def Let_def list_ex_iff)

lemma set_apply_used: "set (apply_used free used) = apply_used_set (set free) used"
  by (simp add: apply_used_def apply_used_set_def set_prune Let_def)

lemma place_all_places: "places (set free) its (place_all free its)"
proof (induction free its rule: place_all.induct)
  case (1 free)
  show ?case by (simp add: places.finished)
next
  case (2 free w h i rest)
  let ?it = "\<lparr>box_x = 0, box_y = 0, box_w = w, box_h = h\<rparr>"
  show ?case
  proof (cases "choose_best ?it (candidates free ?it)")
    case None
    then have "candidates free ?it = []" by (simp add: choose_best_None)
    then have none: "\<forall>r\<in>set free. \<not> fits ?it r"
      by (auto simp: candidates_def filter_empty_conv)
    obtain ps rs where pr: "place_all free rest = (ps, rs)" by (cases "place_all free rest")
    from "2.IH"(1) [OF refl None] pr have "places (set free) rest (ps, rs)" by simp
    from places.rejected [OF none this, of i] None pr show ?thesis by simp
  next
    case (Some r)
    let ?u = "\<lparr>box_x = box_x r, box_y = box_y r, box_w = w, box_h = h\<rparr>"
    obtain ps rs where pr: "place_all (apply_used free ?u) rest = (ps, rs)"
      by (cases "place_all (apply_used free ?u) rest")
    from "2.IH"(2) [OF refl Some refl] pr
    have "places (apply_used_set (set free) ?u) rest (ps, rs)" by (simp add: set_apply_used)
    from places.placed [OF choose_best_is_best [OF Some] this, of i] Some pr
    show ?thesis by simp
  qed
qed

text \<open>
  The choice of step 2c is a real one: two free rectangles at the same origin, one
  \<open>2 \<times> 3\<close> and one \<open>3 \<times> 2\<close>, are both best for a \<open>1 \<times> 1\<close> item.
\<close>

lemma best_candidates_not_unique:
  "\<lparr>box_x = 0, box_y = 0, box_w = 2, box_h = 3\<rparr>
     \<in> best_candidates
         {\<lparr>box_x = 0, box_y = 0, box_w = 2, box_h = 3\<rparr>,
          \<lparr>box_x = 0, box_y = 0, box_w = 3, box_h = 2\<rparr>}
         \<lparr>box_x = 0, box_y = 0, box_w = 1, box_h = 1\<rparr>"
  "\<lparr>box_x = 0, box_y = 0, box_w = 3, box_h = 2\<rparr>
     \<in> best_candidates
         {\<lparr>box_x = 0, box_y = 0, box_w = 2, box_h = 3\<rparr>,
          \<lparr>box_x = 0, box_y = 0, box_w = 3, box_h = 2\<rparr>}
         \<lparr>box_x = 0, box_y = 0, box_w = 1, box_h = 1\<rparr>"
  by (simp_all add: best_candidates_def fits_def slack_key_def)

text \<open>
  Best candidates may differ in size, but they share their origin, and the origin is all
  that a placement takes from the chosen rectangle: every run gives the same result.
\<close>

lemma best_candidates_origin:
  assumes "r1 \<in> best_candidates free it" and "r2 \<in> best_candidates free it"
  shows "box_x r1 = box_x r2 \<and> box_y r1 = box_y r2"
proof -
  from assms have "\<not> key_less (slack_key it r1) (slack_key it r2)"
    and "\<not> key_less (slack_key it r2) (slack_key it r1)"
    by (auto simp: best_candidates_def)
  then have "slack_key it r1 = slack_key it r2" by (simp add: key_less_iff)
  then show ?thesis by (simp add: slack_key_def Let_def)
qed

inductive_cases places_NilE: "places free [] out"
inductive_cases places_ConsE: "places free ((w, h, i) # rest) out"

lemma places_deterministic:
  "places free its out1 \<Longrightarrow> places free its out2 \<Longrightarrow> out1 = out2"
proof (induction arbitrary: out2 rule: places.induct)
  case (finished free)
  then show ?case by (auto elim: places_NilE)
next
  case (rejected free w h rest ps rs i)
  from rejected.prems show ?case
  proof (rule places_ConsE)
    fix ps' rs'
    assume "out2 = (ps', (w, h, i) # rs')" and "places free rest (ps', rs')"
    with rejected.IH [of "(ps', rs')"] show ?thesis by simp
  next
    fix r ps' rs'
    assume "r \<in> best_candidates free \<lparr>box_x = 0, box_y = 0, box_w = w, box_h = h\<rparr>"
    with rejected.hyps(1) show ?thesis by (auto simp: best_candidates_def)
  qed
next
  case (placed r free w h rest ps rs i)
  from placed.prems show ?case
  proof (rule places_ConsE)
    fix ps' rs'
    assume "\<forall>r\<in>free. \<not> fits \<lparr>box_x = 0, box_y = 0, box_w = w, box_h = h\<rparr> r"
    with placed.hyps(1) show ?thesis by (auto simp: best_candidates_def)
  next
    fix r' ps' rs'
    assume out2: "out2 = (\<lparr>rect_x = box_x r', rect_y = box_y r', rect_width = w,
                            rect_height = h, rid = i\<rparr> # ps', rs')"
      and r': "r' \<in> best_candidates free \<lparr>box_x = 0, box_y = 0, box_w = w, box_h = h\<rparr>"
      and rest: "places (apply_used_set free
                   \<lparr>box_x = box_x r', box_y = box_y r', box_w = w, box_h = h\<rparr>) rest (ps', rs')"
    from best_candidates_origin [OF placed.hyps(1) r']
    have o: "box_x r = box_x r'" "box_y r = box_y r'" by simp_all
    with rest placed.IH [of "(ps', rs')"] have "(ps, rs) = (ps', rs')" by simp
    with out2 o show ?thesis by simp
  qed
qed

lemma heuristic_run_deterministic:
  assumes "heuristic_run W H its out1" and "heuristic_run W H its out2"
  shows "out1 = out2"
proof -
  let ?full = "{\<lparr>box_x = 0, box_y = 0, box_w = W, box_h = H\<rparr>}"
  from assms have "places ?full (sort_items its) out1" "places ?full (sort_items its) out2"
    by (auto simp: heuristic_run_def processing_order_unique)
  then show ?thesis by (rule places_deterministic)
qed

lemma pack_heuristic_run:
  assumes "pack W H its = Inr out"
  shows "heuristic_run W H its out"
proof -
  obtain ps rs where out: "out = (ps, rs)" by (cases out)
  from assms out have p: "pack W H its = Inr (ps, rs)" by simp
  from pack_Inr [OF p] have "valid_input W H its"
    by (auto simp: valid_input_def list_all_iff)
  moreover from pack_Inr(4) [OF p] place_all_places [of "[\<lparr>box_x = 0, box_y = 0, box_w = W, box_h = H\<rparr>]" "sort_items its"]
  have "places {\<lparr>box_x = 0, box_y = 0, box_w = W, box_h = H\<rparr>} (sort_items its) out"
    by (simp add: out)
  ultimately show ?thesis by (auto simp: heuristic_run_def processing_order_unique)
qed

lemma pack_Inl_invalid:
  assumes "pack W H its = Inl e"
  shows "\<not> valid_input W H its"
proof
  assume "valid_input W H its"
  then have "0 < W" "0 < H" "\<forall>(w, h, i)\<in>set its. 0 < w \<and> 0 < h"
    by (simp_all add: valid_input_def list_all_iff)
  from pack_total [OF this] assms show False by simp
qed

lemma maxrects_follows_heuristic: "follows_heuristic maxrects_packer"
  unfolding follows_heuristic_def
proof (intro allI)
  fix W H items
  show "case maxrects_packer W H items of
          Inl e \<Rightarrow> \<not> valid_input W H items
        | Inr bins \<Rightarrow>
            \<exists>ps rs. heuristic_run W H items (ps, rs) \<and> (bins = [ps] \<or> bins = [] \<and> ps = [])"
  proof (cases "pack W H items")
    case (Inl e)
    with pack_Inl_invalid [OF Inl] show ?thesis by (simp add: maxrects_packer_def)
  next
    case (Inr out)
    obtain ps rs where out: "out = (ps, rs)" by (cases out)
    from pack_heuristic_run [OF Inr] out have "heuristic_run W H items (ps, rs)" by simp
    with Inr out show ?thesis by (auto simp: maxrects_packer_def)
  qed
qed

lemma binless_follows_heuristic: "follows_heuristic binless_packer"
  unfolding follows_heuristic_def
proof (intro allI)
  fix W H items
  show "case binless_packer W H items of
          Inl e \<Rightarrow> \<not> valid_input W H items
        | Inr bins \<Rightarrow>
            \<exists>ps rs. heuristic_run W H items (ps, rs) \<and> (bins = [ps] \<or> bins = [] \<and> ps = [])"
  proof (cases "pack W H items")
    case (Inl e)
    with pack_Inl_invalid [OF Inl] show ?thesis by (simp add: binless_packer_def)
  next
    case (Inr out)
    obtain ps rs where out: "out = (ps, rs)" by (cases out)
    from pack_heuristic_run [OF Inr] out have "heuristic_run W H items (ps, rs)" by simp
    with Inr out show ?thesis by (auto simp: binless_packer_def)
  qed
qed

lemma follows_heuristic_out:
  assumes "follows_heuristic p"
  shows "(\<exists>e. p W H items = Inl e \<and> \<not> valid_input W H items)
       \<or> (\<exists>bins ps rs. p W H items = Inr bins \<and> heuristic_run W H items (ps, rs)
             \<and> packed_of its bins = collect_packed its ps)"
proof (cases "p W H items")
  case (Inl e)
  from assms have "case p W H items of
          Inl e \<Rightarrow> \<not> valid_input W H items
        | Inr bins \<Rightarrow>
            \<exists>ps rs. heuristic_run W H items (ps, rs) \<and> (bins = [ps] \<or> bins = [] \<and> ps = [])"
    unfolding follows_heuristic_def by blast
  with Inl show ?thesis by simp
next
  case (Inr bins)
  from assms have "case p W H items of
          Inl e \<Rightarrow> \<not> valid_input W H items
        | Inr bins \<Rightarrow>
            \<exists>ps rs. heuristic_run W H items (ps, rs) \<and> (bins = [ps] \<or> bins = [] \<and> ps = [])"
    unfolding follows_heuristic_def by blast
  with Inr obtain ps rs where h: "heuristic_run W H items (ps, rs)"
    and b: "bins = [ps] \<or> bins = [] \<and> ps = []" by auto
  from b have "packed_of its bins = collect_packed its ps"
    by (auto simp: packed_of_def)
  with Inr h show ?thesis by blast
qed

text \<open>
  C6: two runs with identical container dimensions and an identical ordered item list
  produce identical results: the same placements with the same coordinates in the same
  order, the same rejected items, the same message and the same drawn scene, or both
  fail. The two runs may start from different states of the viewer and use different
  packers, as long as both follow the heuristic of section 4.3; whatever the heuristic
  leaves open (which of several best candidates is taken, how the free set is kept, whether
  a packer without placements has a bin) does not show in the result.
\<close>

theorem identical_inputs_identical_results:
  assumes "follows_heuristic packer1" and "follows_heuristic packer2"
    and "cd_width (fst (get_container pf v1)) = cd_width (fst (get_container pf v2))"
    and "cd_height (fst (get_container pf v1)) = cd_height (fst (get_container pf v2))"
    and "fst (get_items_for_packing pf v1) = fst (get_items_for_packing pf v2)"
  shows "result_of (run_packing pf packer1 d v1) = result_of (run_packing pf packer2 d v2)"
proof -
  obtain c1 w1 where g1: "get_container pf v1 = (c1, w1)" by (cases "get_container pf v1")
  obtain c2 w2 where g2: "get_container pf v2 = (c2, w2)" by (cases "get_container pf v2")
  obtain items ws1 where i1: "get_items_for_packing pf v1 = (items, ws1)"
    by (cases "get_items_for_packing pf v1")
  with assms(5) obtain ws2 where i2: "get_items_for_packing pf v2 = (items, ws2)"
    by (cases "get_items_for_packing pf v2") simp
  from assms(3,4) g1 g2 have eq: "cd_width c2 = cd_width c1" "cd_height c2 = cd_height c1"
    by simp_all
  define W where "W = cd_width c1"
  define H where "H = cd_height c1"
  define added where "added = added_rects items"
  have run1: "result_of (run_packing pf packer1 d v1) =
      (if items = [] \<and> d then Some ([], [], Some NoItems, [])
       else result_of (case packer1 W H added of Inl e \<Rightarrow> Inl e
            | Inr bins \<Rightarrow> run_packing pf (\<lambda>W H a. Inr bins) d v1))"
    by (simp add: run_packing_def result_of_def g1 i1 W_def H_def added_def Let_def
             split: sum.splits)
  have run2: "result_of (run_packing pf packer2 d v2) =
      (if items = [] \<and> d then Some ([], [], Some NoItems, [])
       else result_of (case packer2 W H added of Inl e \<Rightarrow> Inl e
            | Inr bins \<Rightarrow> run_packing pf (\<lambda>W H a. Inr bins) d v2))"
    by (simp add: run_packing_def result_of_def g2 i2 eq W_def H_def added_def Let_def
             split: sum.splits)
  have same: "result_of (run_packing pf (\<lambda>W H a. Inr bins1) d v1)
            = result_of (run_packing pf (\<lambda>W H a. Inr bins2) d v2)"
    if "packed_of items bins1 = packed_of items bins2" for bins1 bins2
    using that by (simp add: run_packing_def result_of_def g1 g2 i1 i2 eq Let_def)
  from follows_heuristic_out [OF assms(1), of W H added items] consider
    (fails1) e1 where "packer1 W H added = Inl e1" "\<not> valid_input W H added"
    | (packs1) bins1 ps1 rs1 where "packer1 W H added = Inr bins1"
        "heuristic_run W H added (ps1, rs1)" "packed_of items bins1 = collect_packed items ps1"
    by blast
  then show ?thesis
  proof cases
    case fails1
    from follows_heuristic_out [OF assms(2), of W H added items] fails1(2)
    have "\<exists>e2. packer2 W H added = Inl e2"
      by (auto simp: heuristic_run_def)
    then obtain e2 where "packer2 W H added = Inl e2" ..
    moreover have "result_of (Inl e) = None" for e :: error
      by (simp add: result_of_def)
    ultimately show ?thesis using fails1(1) by (simp add: run1 run2)
  next
    case packs1
    then have "valid_input W H added" by (simp add: heuristic_run_def)
    with follows_heuristic_out [OF assms(2), of W H added items]
    obtain bins2 ps2 rs2 where p2: "packer2 W H added = Inr bins2"
        "heuristic_run W H added (ps2, rs2)" "packed_of items bins2 = collect_packed items ps2"
      by blast
    from heuristic_run_deterministic [OF packs1(2) p2(2)] have "ps1 = ps2" by simp
    with packs1(3) p2(3) have "packed_of items bins1 = packed_of items bins2" by simp
    from same [OF this] packs1(1) p2(1) show ?thesis by (simp add: run1 run2)
  qed
qed

lemma get_container_scene:
  "get_container pf (v\<lparr>scene := s, save_name := n\<rparr>) = get_container pf v"
  by (simp add: get_container_def)

lemma get_items_scene:
  "get_items_for_packing pf (v\<lparr>scene := s, save_name := n\<rparr>) = get_items_for_packing pf v"
  by (simp add: get_items_for_packing_def)

theorem identical_inputs_identical_results_witness:
  "follows_heuristic maxrects_packer \<and> follows_heuristic binless_packer
   \<and> cd_width (fst (get_container float_sample sample_viewer))
     = cd_width (fst (get_container float_sample
         (sample_viewer\<lparr>scene := [ContainerOutline 1 1], save_name := Some ''old.json''\<rparr>)))
   \<and> cd_height (fst (get_container float_sample sample_viewer))
     = cd_height (fst (get_container float_sample
         (sample_viewer\<lparr>scene := [ContainerOutline 1 1], save_name := Some ''old.json''\<rparr>)))
   \<and> fst (get_items_for_packing float_sample sample_viewer)
     = fst (get_items_for_packing float_sample
         (sample_viewer\<lparr>scene := [ContainerOutline 1 1], save_name := Some ''old.json''\<rparr>))
   \<and> result_of (run_packing float_sample maxrects_packer True sample_viewer)
     = result_of (run_packing float_sample binless_packer True
         (sample_viewer\<lparr>scene := [ContainerOutline 1 1], save_name := Some ''old.json''\<rparr>))
   \<and> result_of (run_packing float_sample maxrects_packer True sample_viewer) \<noteq> None"
proof -
  let ?v2 = "sample_viewer\<lparr>scene := [ContainerOutline 1 1], save_name := Some ''old.json''\<rparr>"
  have c: "get_container float_sample sample_viewer = get_container float_sample ?v2"
    by (simp only: get_container_scene)
  have i: "get_items_for_packing float_sample sample_viewer = get_items_for_packing float_sample ?v2"
    by (simp only: get_items_scene)
  have 1: "cd_width (fst (get_container float_sample sample_viewer))
     = cd_width (fst (get_container float_sample ?v2))" using c by simp
  have 2: "cd_height (fst (get_container float_sample sample_viewer))
     = cd_height (fst (get_container float_sample ?v2))" using c by simp
  have 3: "fst (get_items_for_packing float_sample sample_viewer)
     = fst (get_items_for_packing float_sample ?v2)" using i by simp
  have 4: "result_of (run_packing float_sample maxrects_packer True sample_viewer) \<noteq> None"
    by code_simp
  from identical_inputs_identical_results
         [OF maxrects_follows_heuristic binless_follows_heuristic 1 2 3, of True]
       maxrects_follows_heuristic binless_follows_heuristic 1 2 3 4
  show ?thesis by blast
qed

subsection \<open>Failing fast\<close>

lemma pack_rejects:
  assumes "W \<le> 0 \<or> H \<le> 0 \<or> (\<exists>(w, h, i)\<in>set its. w \<le> 0 \<or> h \<le> 0)"
  shows "(pack W H its = Inl InvalidContainer \<and> (W \<le> 0 \<or> H \<le> 0))
       \<or> (\<exists>w h i. pack W H its = Inl (InvalidItem i) \<and> (w, h, i) \<in> set its \<and> (w \<le> 0 \<or> h \<le> 0))"
proof (cases "W \<le> 0 \<or> H \<le> 0")
  case True
  then show ?thesis by (simp add: pack_def)
next
  case False
  with assms have "\<exists>t. t \<in> set its \<and> (case t of (w, h, i) \<Rightarrow> w \<le> 0 \<or> h \<le> 0)" by blast
  then have "find (\<lambda>(w, h, i). w \<le> 0 \<or> h \<le> 0) its \<noteq> None"
    by (simp only: find_None_iff not_not simp_thms)
  then obtain w h i where f: "find (\<lambda>(w, h, i). w \<le> 0 \<or> h \<le> 0) its = Some (w, h, i)"
    by (cases "find (\<lambda>(w, h, i). w \<le> 0 \<or> h \<le> 0) its") auto
  then have "(w, h, i) \<in> set its" "w \<le> 0 \<or> h \<le> 0"
    by (metis find_Some_iff nth_mem, auto simp: find_Some_iff)
  moreover from False f have "pack W H its = Inl (InvalidItem i)" by (simp add: pack_def)
  ultimately show ?thesis by blast
qed

text \<open>
  C7: when a container or item dimension that is not positive reaches the engine (the run
  is not ended beforehand by the empty-list message), the run fails with an error naming
  the container, or naming an item by its position whose width or height is not positive,
  and produces no placement result. \<^verbatim>\<open>run_packing\<close> catches no exception of the packer.
\<close>

theorem nonpositive_dimension_fails_fast:
  assumes "fst (get_items_for_packing pf v) \<noteq> [] \<or> \<not> d"
    and "cd_width (fst (get_container pf v)) \<le> 0 \<or> cd_height (fst (get_container pf v)) \<le> 0
         \<or> (\<exists>it\<in>set (fst (get_items_for_packing pf v)). fst (fst it) \<le> 0 \<or> fst (snd (fst it)) \<le> 0)"
  shows "(run_packing pf maxrects_packer d v = Inl InvalidContainer
          \<and> (cd_width (fst (get_container pf v)) \<le> 0 \<or> cd_height (fst (get_container pf v)) \<le> 0))
       \<or> (\<exists>i. run_packing pf maxrects_packer d v = Inl (InvalidItem i)
             \<and> i < length (fst (get_items_for_packing pf v))
             \<and> (fst (fst (fst (get_items_for_packing pf v) ! i)) \<le> 0
                \<or> fst (snd (fst (fst (get_items_for_packing pf v) ! i))) \<le> 0))"
proof -
  let ?W = "cd_width (fst (get_container pf v))"
  let ?H = "cd_height (fst (get_container pf v))"
  let ?items = "fst (get_items_for_packing pf v)"
  have run: "run_packing pf maxrects_packer d v = Inl e" if "pack ?W ?H (added_rects ?items) = Inl e" for e
    using that assms(1)
    by (auto simp: run_packing_def maxrects_packer_def Let_def split: prod.splits)
  have bad: "?W \<le> 0 \<or> ?H \<le> 0 \<or> (\<exists>(w, h, i)\<in>set (added_rects ?items). w \<le> 0 \<or> h \<le> 0)"
  proof -
    { assume "\<exists>it\<in>set ?items. fst (fst it) \<le> 0 \<or> fst (snd (fst it)) \<le> 0"
      then obtain k where k: "k < length ?items"
        "fst (fst (?items ! k)) \<le> 0 \<or> fst (snd (fst (?items ! k))) \<le> 0"
        by (auto simp: in_set_conv_nth)
      then have "added_rects ?items ! k \<in> set (added_rects ?items)"
        by (simp add: added_rects_def)
      with k added_rects_nth [OF k(1)]
      have "\<exists>(w, h, i)\<in>set (added_rects ?items). w \<le> 0 \<or> h \<le> 0" by force }
    with assms(2) show ?thesis by blast
  qed
  from pack_rejects [OF bad] consider
    (container) "pack ?W ?H (added_rects ?items) = Inl InvalidContainer" "?W \<le> 0 \<or> ?H \<le> 0"
    | (item) w h i where "pack ?W ?H (added_rects ?items) = Inl (InvalidItem i)"
        "(w, h, i) \<in> set (added_rects ?items)" "w \<le> 0 \<or> h \<le> 0"
    by blast
  then show ?thesis
  proof cases
    case container
    with run show ?thesis by blast
  next
    case item
    from added_rects_mem [OF item(2)] item(3) run [OF item(1)] show ?thesis by blast
  qed
qed

theorem nonpositive_dimension_fails_fast_witness:
  "fst (get_items_for_packing float_sample
          (viewer_of ''10'' ''10'' [row_of ''a'' ''1'' ''1'', row_of ''b'' ''0'' ''2''])) \<noteq> []
   \<and> (\<exists>it\<in>set (fst (get_items_for_packing float_sample
          (viewer_of ''10'' ''10'' [row_of ''a'' ''1'' ''1'', row_of ''b'' ''0'' ''2'']))).
          fst (fst it) \<le> 0 \<or> fst (snd (fst it)) \<le> 0)
   \<and> (\<exists>e. run_packing float_sample maxrects_packer True
          (viewer_of ''10'' ''10'' [row_of ''a'' ''1'' ''1'', row_of ''b'' ''0'' ''2'']) = Inl e)"
proof -
  let ?v = "viewer_of ''10'' ''10'' [row_of ''a'' ''1'' ''1'', row_of ''b'' ''0'' ''2'']"
  have ne: "fst (get_items_for_packing float_sample ?v) \<noteq> []"
    by code_simp
  then have h1: "fst (get_items_for_packing float_sample ?v) \<noteq> [] \<or> \<not> True" ..
  have bad: "\<exists>it\<in>set (fst (get_items_for_packing float_sample ?v)).
          fst (fst it) \<le> 0 \<or> fst (snd (fst it)) \<le> 0"
    by code_simp
  then have h2: "cd_width (fst (get_container float_sample ?v)) \<le> 0
      \<or> cd_height (fst (get_container float_sample ?v)) \<le> 0
      \<or> (\<exists>it\<in>set (fst (get_items_for_packing float_sample ?v)).
          fst (fst it) \<le> 0 \<or> fst (snd (fst it)) \<le> 0)" by blast
  from nonpositive_dimension_fails_fast [OF h1 h2] ne bad show ?thesis by blast
qed

section \<open>Properties of the table readers\<close>

subsection \<open>Defaults of the dimensions\<close>

lemma text_or_blank: "blank_cell c \<Longrightarrow> text_or c dflt = dflt"
  by (auto simp: blank_cell_def text_or_def strip_nonempty_def list_ex_iff list_all_iff
           split: option.splits)

lemma text_or_not_blank: "\<not> blank_cell c \<Longrightarrow> text_or c dflt = the c"
  by (auto simp: blank_cell_def text_or_def strip_nonempty_def list_ex_iff list_all_iff
           split: option.splits)

lemma length_get_items: "length (fst (get_items_for_packing pf v)) = length (load_table v)"
  by (simp add: get_items_for_packing_def)

lemma get_items_nth:
  "row < length (load_table v) \<Longrightarrow>
   fst (get_items_for_packing pf v) ! row
     = fst (item_of_row pf (load_row_colours v) row (load_table v ! row))"
  by (simp add: get_items_for_packing_def nth_enumerate_eq)

lemma item_of_row_warnings:
  "snd (item_of_row pf colours row r) =
     (if pf (text_or (w_cell r) ''1'') = None \<or> pf (text_or (h_cell r) ''1'') = None
      then [RowWarning row] else [])"
  by (auto simp: item_of_row_def Let_def split: option.splits)

lemma get_items_warning:
  "RowWarning row \<in> set (snd (get_items_for_packing pf v)) \<longleftrightarrow>
     row < length (load_table v) \<and>
     (pf (text_or (w_cell (load_table v ! row)) ''1'') = None
      \<or> pf (text_or (h_cell (load_table v ! row)) ''1'') = None)"
  (is "?l \<longleftrightarrow> ?r")
proof
  assume ?l
  then show ?r
    by (auto simp: get_items_for_packing_def item_of_row_warnings in_set_enumerate_eq
             split: if_splits)
next
  assume r: ?r
  then have "(row, load_table v ! row) \<in> set (enumerate 0 (load_table v))"
    by (simp add: in_set_enumerate_eq)
  moreover from r have
    "RowWarning row \<in> set (snd (item_of_row pf (load_row_colours v) row (load_table v ! row)))"
    by (simp add: item_of_row_warnings)
  ultimately show ?l
    by (force simp: get_items_for_packing_def)
qed

text \<open>
  A container row with the width text \<open>abc\<close> and the height text \<open>5\<close>: the handler of
  lines 519-521 sets both dimensions, so the height is \<open>10\<close>, not the \<open>5\<close> supplied.
\<close>

theorem axis_default_counterexample:
  "float_sample ''5'' = Some 5
   \<and> cw_cell (container_table (viewer_of ''abc'' ''5'' [])) = Some ''abc''
   \<and> ch_cell (container_table (viewer_of ''abc'' ''5'' [])) = Some ''5''
   \<and> cd_width (fst (get_container float_sample (viewer_of ''abc'' ''5'' []))) = 10
   \<and> cd_height (fst (get_container float_sample (viewer_of ''abc'' ''5'' []))) = 10"
  by code_simp

text \<open>
  C8, as the code has it (with \<^verbatim>\<open>float("10") = 10\<close> and \<^verbatim>\<open>float("1") = 1\<close>): a cell that
  is missing or blank defaults for its own axis, to \<open>10\<close> for the container and to \<open>1\<close> for
  an item, the other axis keeps its numeric value and nothing is printed; a text that is
  not numeric on either axis sets both axes to the default and prints a warning. No case
  fails the operation.
\<close>

theorem dimension_defaults:
  assumes "pf ''10'' = Some 10" and "pf ''1'' = Some 1"
  shows "(blank_cell (cw_cell (container_table v))
            \<and> pf (text_or (ch_cell (container_table v)) ''10'') = Some h
          \<longrightarrow> cd_width (fst (get_container pf v)) = 10
              \<and> cd_height (fst (get_container pf v)) = h
              \<and> snd (get_container pf v) = [])
       \<and> (blank_cell (ch_cell (container_table v))
            \<and> pf (text_or (cw_cell (container_table v)) ''10'') = Some w
          \<longrightarrow> cd_width (fst (get_container pf v)) = w
              \<and> cd_height (fst (get_container pf v)) = 10
              \<and> snd (get_container pf v) = [])
       \<and> (pf (text_or (cw_cell (container_table v)) ''10'') = None
            \<or> pf (text_or (ch_cell (container_table v)) ''10'') = None
          \<longrightarrow> cd_width (fst (get_container pf v)) = 10
              \<and> cd_height (fst (get_container pf v)) = 10
              \<and> snd (get_container pf v) = [ContainerWarning])
       \<and> (row < length (load_table v) \<and> blank_cell (w_cell (load_table v ! row))
            \<and> pf (text_or (h_cell (load_table v ! row)) ''1'') = Some h
          \<longrightarrow> fst (fst (fst (get_items_for_packing pf v) ! row)) = 1
              \<and> fst (snd (fst (fst (get_items_for_packing pf v) ! row))) = h
              \<and> RowWarning row \<notin> set (snd (get_items_for_packing pf v)))
       \<and> (row < length (load_table v) \<and> blank_cell (h_cell (load_table v ! row))
            \<and> pf (text_or (w_cell (load_table v ! row)) ''1'') = Some w
          \<longrightarrow> fst (fst (fst (get_items_for_packing pf v) ! row)) = w
              \<and> fst (snd (fst (fst (get_items_for_packing pf v) ! row))) = 1
              \<and> RowWarning row \<notin> set (snd (get_items_for_packing pf v)))
       \<and> (row < length (load_table v)
            \<and> (pf (text_or (w_cell (load_table v ! row)) ''1'') = None
                \<or> pf (text_or (h_cell (load_table v ! row)) ''1'') = None)
          \<longrightarrow> fst (fst (fst (get_items_for_packing pf v) ! row)) = 1
              \<and> fst (snd (fst (fst (get_items_for_packing pf v) ! row))) = 1
              \<and> RowWarning row \<in> set (snd (get_items_for_packing pf v)))"
proof (intro conjI impI)
  assume "blank_cell (cw_cell (container_table v))
            \<and> pf (text_or (ch_cell (container_table v)) ''10'') = Some h"
  then show "cd_width (fst (get_container pf v)) = 10"
    and "cd_height (fst (get_container pf v)) = h"
    and "snd (get_container pf v) = []"
    using assms(1) by (simp_all add: get_container_def text_or_blank)
next
  assume "blank_cell (ch_cell (container_table v))
            \<and> pf (text_or (cw_cell (container_table v)) ''10'') = Some w"
  then show "cd_width (fst (get_container pf v)) = w"
    and "cd_height (fst (get_container pf v)) = 10"
    and "snd (get_container pf v) = []"
    using assms(1) by (simp_all add: get_container_def text_or_blank)
next
  assume "pf (text_or (cw_cell (container_table v)) ''10'') = None
            \<or> pf (text_or (ch_cell (container_table v)) ''10'') = None"
  then show "cd_width (fst (get_container pf v)) = 10"
    and "cd_height (fst (get_container pf v)) = 10"
    and "snd (get_container pf v) = [ContainerWarning]"
    by (auto simp: get_container_def Let_def split: option.splits)
next
  assume a: "row < length (load_table v) \<and> blank_cell (w_cell (load_table v ! row))
            \<and> pf (text_or (h_cell (load_table v ! row)) ''1'') = Some h"
  then show "fst (fst (fst (get_items_for_packing pf v) ! row)) = 1"
    and "fst (snd (fst (fst (get_items_for_packing pf v) ! row))) = h"
    using assms(2) by (simp_all add: get_items_nth item_of_row_def text_or_blank)
  from a show "RowWarning row \<notin> set (snd (get_items_for_packing pf v))"
    using assms(2) by (simp add: get_items_warning text_or_blank)
next
  assume a: "row < length (load_table v) \<and> blank_cell (h_cell (load_table v ! row))
            \<and> pf (text_or (w_cell (load_table v ! row)) ''1'') = Some w"
  then show "fst (fst (fst (get_items_for_packing pf v) ! row)) = w"
    and "fst (snd (fst (fst (get_items_for_packing pf v) ! row))) = 1"
    using assms(2) by (simp_all add: get_items_nth item_of_row_def text_or_blank)
  from a show "RowWarning row \<notin> set (snd (get_items_for_packing pf v))"
    using assms(2) by (simp add: get_items_warning text_or_blank)
next
  assume a: "row < length (load_table v)
            \<and> (pf (text_or (w_cell (load_table v ! row)) ''1'') = None
                \<or> pf (text_or (h_cell (load_table v ! row)) ''1'') = None)"
  then show "fst (fst (fst (get_items_for_packing pf v) ! row)) = 1"
    and "fst (snd (fst (fst (get_items_for_packing pf v) ! row))) = 1"
    by (auto simp: get_items_nth item_of_row_def Let_def split: option.splits)
  from a show "RowWarning row \<in> set (snd (get_items_for_packing pf v))"
    by (simp add: get_items_warning)
qed

theorem dimension_defaults_witness:
  "float_sample ''10'' = Some 10 \<and> float_sample ''1'' = Some 1
   \<and> blank_cell (cw_cell (container_table blank_viewer))
   \<and> blank_cell (ch_cell (container_table blank_viewer))
   \<and> cd_width (fst (get_container float_sample blank_viewer)) = 10
   \<and> cd_height (fst (get_container float_sample blank_viewer)) = 10
   \<and> snd (get_container float_sample blank_viewer) = []
   \<and> (1::nat) < length (load_table blank_viewer)
   \<and> blank_cell (w_cell (load_table blank_viewer ! 1))
   \<and> blank_cell (h_cell (load_table blank_viewer ! 1))
   \<and> fst (fst (fst (get_items_for_packing float_sample blank_viewer) ! 1)) = 1
   \<and> fst (snd (fst (fst (get_items_for_packing float_sample blank_viewer) ! 1))) = 1
   \<and> RowWarning 1 \<notin> set (snd (get_items_for_packing float_sample blank_viewer))
   \<and> float_sample (text_or (cw_cell (container_table (viewer_of ''abc'' ''5'' [row_of ''a'' ''x'' ''3'']))) ''10'') = None
   \<and> snd (get_container float_sample (viewer_of ''abc'' ''5'' [row_of ''a'' ''x'' ''3''])) = [ContainerWarning]
   \<and> float_sample (text_or (w_cell (load_table (viewer_of ''abc'' ''5'' [row_of ''a'' ''x'' ''3'']) ! 0)) ''1'') = None
   \<and> fst (snd (fst (fst (get_items_for_packing float_sample (viewer_of ''abc'' ''5'' [row_of ''a'' ''x'' ''3''])) ! 0))) = 1
   \<and> RowWarning 0 \<in> set (snd (get_items_for_packing float_sample (viewer_of ''abc'' ''5'' [row_of ''a'' ''x'' ''3''])))"
proof -
  let ?v2 = "viewer_of ''abc'' ''5'' [row_of ''a'' ''x'' ''3'']"
  have ten: "float_sample ''10'' = Some 10" and one: "float_sample ''1'' = Some 1"
    by code_simp+
  have b1: "blank_cell (cw_cell (container_table blank_viewer))"
    and b2: "blank_cell (ch_cell (container_table blank_viewer))"
    and b3: "(1::nat) < length (load_table blank_viewer)"
    and b4: "blank_cell (w_cell (load_table blank_viewer ! 1))"
    and b5: "blank_cell (h_cell (load_table blank_viewer ! 1))"
    by code_simp+
  have t1: "float_sample (text_or (ch_cell (container_table blank_viewer)) ''10'') = Some 10"
    and t2: "float_sample (text_or (cw_cell (container_table blank_viewer)) ''10'') = Some 10"
    and t3: "float_sample (text_or (h_cell (load_table blank_viewer ! 1)) ''1'') = Some 1"
    and t4: "float_sample (text_or (w_cell (load_table blank_viewer ! 1)) ''1'') = Some 1"
    by code_simp+
  have n1: "float_sample (text_or (cw_cell (container_table ?v2)) ''10'') = None"
    and n2: "float_sample (text_or (w_cell (load_table ?v2 ! 0)) ''1'') = None"
    and n3: "(0::nat) < length (load_table ?v2)"
    by code_simp+
  note A = dimension_defaults [OF ten one, of blank_viewer 10 10 1]
  note A' = dimension_defaults [OF ten one, of blank_viewer 1 1 1]
  note B = dimension_defaults [OF ten one, of ?v2 0 0 0]
  from A A' b1 b2 b3 b4 b5 t1 t2 t3 t4
  have "cd_width (fst (get_container float_sample blank_viewer)) = 10
   \<and> cd_height (fst (get_container float_sample blank_viewer)) = 10
   \<and> snd (get_container float_sample blank_viewer) = []
   \<and> fst (fst (fst (get_items_for_packing float_sample blank_viewer) ! 1)) = 1
   \<and> fst (snd (fst (fst (get_items_for_packing float_sample blank_viewer) ! 1))) = 1
   \<and> RowWarning 1 \<notin> set (snd (get_items_for_packing float_sample blank_viewer))"
    by blast
  moreover from B n1 n2 n3
  have "snd (get_container float_sample ?v2) = [ContainerWarning]
   \<and> fst (snd (fst (fst (get_items_for_packing float_sample ?v2) ! 0))) = 1
   \<and> RowWarning 0 \<in> set (snd (get_items_for_packing float_sample ?v2))"
    by blast
  ultimately show ?thesis using ten one b1 b2 b3 b4 b5 n1 n2 by blast
qed

subsection \<open>Labels of unnamed rows\<close>

text \<open>\<open>str_nat\<close> writes a number in decimal: reading the digits back gives the number.\<close>

lemma digit_char_value: "d < 10 \<Longrightarrow> (of_char (digit_char d) :: nat) - 48 = d"
proof -
  assume "d < 10"
  then have "d \<in> {0, 1, 2, 3, 4, 5, 6, 7, 8, 9}" by auto
  then show ?thesis by (auto simp: digit_char_def)
qed

lemma digits_value_snoc: "digits_value (s @ [c]) = 10 * digits_value s + (of_char c - 48)"
  by (simp add: digits_value_def)

lemma digits_value_str_nat: "digits_value (str_nat n) = n"
proof (induction n rule: str_nat.induct)
  case (1 n)
  show ?case
  proof (cases "n < 10")
    case True
    then show ?thesis
      using digit_char_value [of n] by (simp add: str_nat.simps [of n] digits_value_def)
  next
    case False
    with 1 digit_char_value [of "n mod 10"] show ?thesis
      by (simp add: str_nat.simps [of n] digits_value_snoc)
  qed
qed

text \<open>
  C9: for a load row whose name cell is missing or holds only blanks, the item handed to
  the packing run is labelled \<open>Load N\<close>, with \<open>N\<close> the row's position counted from 1
  in decimal.
\<close>

theorem blank_name_gets_row_label:
  assumes "row < length (load_table v)"
    and "blank_cell (name_cell (load_table v ! row))"
  shows "snd (snd (fst (fst (get_items_for_packing pf v) ! row))) = ''Load '' @ str_nat (row + 1)"
  using assms by (simp add: get_items_nth item_of_row_def Let_def text_or_blank split: prod.splits)

theorem blank_name_gets_row_label_witness:
  "(1::nat) < length (load_table blank_viewer)
   \<and> blank_cell (name_cell (load_table blank_viewer ! 1))
   \<and> snd (snd (fst (fst (get_items_for_packing float_sample blank_viewer) ! 1))) = ''Load 2''"
proof -
  have h1: "(1::nat) < length (load_table blank_viewer)"
    and h2: "blank_cell (name_cell (load_table blank_viewer ! 1))"
    by code_simp+
  have s: "''Load '' @ str_nat (1 + 1) = ''Load 2''" by code_simp
  from blank_name_gets_row_label [OF h1 h2, of float_sample] h1 h2 s show ?thesis by simp
qed

section \<open>Properties of saving\<close>

text \<open>
  When every row has its cell widget, each row yields one entry, in row order, with the
  defaults for missing cells and grey for a widget without a button.
\<close>

lemma save_loads_with_widgets:
  assumes "\<forall>r\<in>set rows. cell_widget r \<noteq> None"
  shows "save_loads cb rows =
     Inr (map (\<lambda>r. \<lparr>le_name = (case name_cell r of None \<Rightarrow> [] | Some t \<Rightarrow> t),
                    le_width = (case w_cell r of None \<Rightarrow> ''1'' | Some t \<Rightarrow> t),
                    le_height = (case h_cell r of None \<Rightarrow> ''1'' | Some t \<Rightarrow> t),
                    le_color = (case the (cell_widget r) of
                                  None \<Rightarrow> (0.5, 0.5, 0.5, 0.8)
                                | Some btn \<Rightarrow> item_color btn)\<rparr>) rows)"
  using assms by (induction rows arbitrary: cb) (auto simp: Let_def split: option.splits)

text \<open>
  C10 asks that a row without a colour button be saved with the colour
  \<open>(0.5, 0.5, 0.5, 0.8)\<close> and that every row produce an entry. \<^verbatim>\<open>color_button\<close> is
  assigned only when \<^verbatim>\<open>cellWidget(row, 3)\<close> is not \<open>None\<close>: a second row without
  cell widget is saved with the colour of the first row's button, and a first row
  without cell widget raises \<^verbatim>\<open>UnboundLocalError\<close>, so that nothing is saved.
\<close>

theorem save_row_without_widget:
  "save_data (viewer_of ''10'' ''10''
      [\<lparr>name_cell = Some ''a'', w_cell = Some ''2'', h_cell = Some ''3'',
        cell_widget = Some (Some (PushButton (0.1, 0.2, 0.3, 0.8)))\<rparr>,
       \<lparr>name_cell = None, w_cell = None, h_cell = None, cell_widget = None\<rparr>])
   = Inr \<lparr>doc_container = (''Container'', ''10'', ''10''),
          doc_loads =
            [\<lparr>le_name = ''a'', le_width = ''2'', le_height = ''3'',
              le_color = (0.1, 0.2, 0.3, 0.8)\<rparr>,
             \<lparr>le_name = [], le_width = ''1'', le_height = ''1'',
              le_color = (0.1, 0.2, 0.3, 0.8)\<rparr>]\<rparr>
   \<and> save_data (viewer_of ''10'' ''10''
      [\<lparr>name_cell = None, w_cell = None, h_cell = None, cell_widget = None\<rparr>])
   = Inl UnboundLocalError"
  by code_simp

end
